theory Spec2Isabelle
  imports Main "HOL-Library.Word"
begin

unbundle bit_operations_syntax

section \<open>The framing header\<close>

type_synonym byte = "8 word"

text \<open>
  \<open>struct DataHead\<close>, with the fields in the order in which \<open>DataHead::dump\<close>
  (src/core/base.cc) prints them. \<open>fd\<close> is a C \<open>long\<close> and \<open>reactor_id\<close> an
  \<open>int16_t\<close>: both are kept as bit patterns (\<open>sint\<close> reads them). \<open>time\<close> is a
  \<open>double\<close> that the bus only copies, so it is kept as its 64-bit pattern.
\<close>

record DataHead =
  fd :: "64 word"
  msg_id :: "64 word"
  len :: "32 word"
  reactor_id :: "16 word"
  type :: "8 word"
  flags :: "8 word"
  server_fd :: "16 word"
  ext_flags :: "16 word"
  time :: "64 word"

text \<open>
  Modelled from the spec: the flag constants are declared in a header that is not part of
  the sources at hand. The spec (section 3) describes \<open>flags\<close> as a bitmask of CHUNK,
  BEGIN, END, DATA_PTR and DATA_OBJ_PTR; they are taken as five distinct single bits.
\<close>

definition SW_EVENT_DATA_PTR :: "8 word" where
  "SW_EVENT_DATA_PTR = 2"

definition SW_EVENT_DATA_CHUNK :: "8 word" where
  "SW_EVENT_DATA_CHUNK = 4"

definition SW_EVENT_DATA_BEGIN :: "8 word" where
  "SW_EVENT_DATA_BEGIN = 8"

definition SW_EVENT_DATA_END :: "8 word" where
  "SW_EVENT_DATA_END = 16"

definition SW_EVENT_DATA_OBJ_PTR :: "8 word" where
  "SW_EVENT_DATA_OBJ_PTR = 32"

text \<open>
  Modelled from the spec: \<open>sizeof(DataHead)\<close> is 40 (section 3), \<open>sizeof(PacketPtr)\<close>
  is that of a \<open>size_t\<close> and a pointer on the same 64-bit host.
\<close>

definition sizeof_DataHead :: nat where
  "sizeof_DataHead = 40"

definition sizeof_PacketPtr :: nat where
  "sizeof_PacketPtr = 16"

text \<open>\<open>SW_OK\<close> and \<open>SW_ERR\<close>, the two \<open>ssize_t\<close> results that are not byte counts.\<close>

definition SW_OK :: int where
  "SW_OK = 0"

definition SW_ERR :: int where
  "SW_ERR = - 1"

text \<open>
  The values of \<open>ReturnCode\<close> that the bus uses. \<open>SW_RETRY\<close> and \<open>SW_FATAL\<close> are the
  spec's names (section 4.7) for the two classifications that the bus never tests for.
\<close>

datatype ReturnCode = SW_CONTINUE | SW_WAIT | SW_READY | SW_REDUCE_SIZE | SW_RETRY | SW_FATAL

subsection \<open>The header in memory\<close>

text \<open>
  The bus moves headers through sockets as raw memory (\<open>recv\<close> into \<open>&buffer_->info\<close>,
  an iovec over \<open>&resp->info\<close>). Modelled from the spec: the 40 bytes are the fields in
  declaration order, little-endian, with the four padding bytes that align \<open>time\<close>.
\<close>

fun le_bytes :: "nat \<Rightarrow> nat \<Rightarrow> byte list" where
  "le_bytes 0 v = []"
| "le_bytes (Suc n) v = of_nat (v mod 256) # le_bytes n (v div 256)"

fun le_nat :: "byte list \<Rightarrow> nat" where
  "le_nat [] = 0"
| "le_nat (b # bs) = unat b + 256 * le_nat bs"

definition field :: "nat \<Rightarrow> nat \<Rightarrow> byte list \<Rightarrow> nat" where
  "field off n bs = le_nat (take n (drop off bs))"

definition encode_head :: "DataHead \<Rightarrow> byte list" where
  "encode_head h =
     le_bytes 8 (unat (fd h)) @ le_bytes 8 (unat (msg_id h)) @ le_bytes 4 (unat (len h)) @
     le_bytes 2 (unat (reactor_id h)) @ le_bytes 1 (unat (type h)) @ le_bytes 1 (unat (flags h)) @
     le_bytes 2 (unat (server_fd h)) @ le_bytes 2 (unat (ext_flags h)) @ le_bytes 4 0 @
     le_bytes 8 (unat (time h))"

definition decode_head :: "byte list \<Rightarrow> DataHead" where
  "decode_head bs =
     \<lparr>fd = of_nat (field 0 8 bs), msg_id = of_nat (field 8 8 bs), len = of_nat (field 16 4 bs),
      reactor_id = of_nat (field 20 2 bs), type = of_nat (field 22 1 bs),
      flags = of_nat (field 23 1 bs), server_fd = of_nat (field 24 2 bs),
      ext_flags = of_nat (field 26 2 bs), time = of_nat (field 32 8 bs)\<rparr>"

text \<open>
  Copying \<open>bs\<close> (at most 40 bytes) over the start of a header in memory: the bytes that
  are not overwritten keep their old value.
\<close>

definition overlay :: "byte list \<Rightarrow> byte list \<Rightarrow> byte list" where
  "overlay new old = new @ drop (length new) old"

definition store_head :: "byte list \<Rightarrow> DataHead \<Rightarrow> DataHead" where
  "store_head bs h = decode_head (overlay (take sizeof_DataHead bs) (encode_head h))"

section \<open>The socket facade\<close>

datatype errno = EAGAIN | EINTR | ENOBUFS | EMSGSIZE | EPIPE | ECONNRESET

text \<open>
  Modelled from the spec: \<open>Socket::catch_read_error\<close> and
  \<open>Socket::catch_write_pipe_error\<close> are not part of the sources at hand. Section 4.7:
  WAIT for EAGAIN, RETRY for EINTR, FATAL otherwise; REDUCE_SIZE for the ENOBUFS/EMSGSIZE
  class, RETRY for EINTR, else FATAL.
\<close>

fun catch_read_error :: "errno \<Rightarrow> ReturnCode" where
  "catch_read_error EAGAIN = SW_WAIT"
| "catch_read_error EINTR = SW_RETRY"
| "catch_read_error _ = SW_FATAL"

fun catch_write_pipe_error :: "errno \<Rightarrow> ReturnCode" where
  "catch_write_pipe_error ENOBUFS = SW_REDUCE_SIZE"
| "catch_write_pipe_error EMSGSIZE = SW_REDUCE_SIZE"
| "catch_write_pipe_error EINTR = SW_RETRY"
| "catch_write_pipe_error _ = SW_FATAL"

text \<open>
  The system calls that reach the kernel, as a log of effects: the call and its result
  (\<open>- 1\<close> for a failure).
\<close>

datatype syscall = SysPeek | SysRecv | SysReadv | SysRead | SysWritev

text \<open>
  A nonblocking socket as the bus sees it. \<open>rxq\<close> is what the kernel holds for the
  reader: a byte list for a stream socket, a list of datagrams for a datagram socket.
  \<open>tx\<close> is what the kernel has accepted from the writer, one entry per \<open>writev\<close>.
  \<open>script\<close> schedules the failures of the coming system calls: the head decides the
  next call (\<open>None\<close>, or an exhausted script, lets the call proceed). \<open>peer_closed\<close>
  makes a read on an empty queue return 0 instead of failing with EAGAIN.
\<close>

record 'q Socket =
  rxq :: 'q
  tx :: "byte list list"
  script :: "errno option list"
  peer_closed :: bool
  calls :: "(syscall \<times> int) list"

type_synonym stream = "byte list Socket"
type_synonym dgram = "byte list list Socket"

datatype io = Failed errno | Got "byte list"

fun ssize :: "io \<Rightarrow> int" where
  "ssize (Failed e) = - 1"
| "ssize (Got bs) = int (length bs)"

definition next_fault :: "'q Socket \<Rightarrow> errno option \<times> 'q Socket" where
  "next_fault s = (case script s of [] \<Rightarrow> (None, s) | e # es \<Rightarrow> (e, s\<lparr>script := es\<rparr>))"

definition logcall :: "syscall \<Rightarrow> io \<Rightarrow> 'q Socket \<Rightarrow> io \<times> 'q Socket" where
  "logcall c r s = (r, s\<lparr>calls := calls s @ [(c, ssize r)]\<rparr>)"

text \<open>
  \<open>recv(fd, buf, n, flags)\<close> on a stream socket: up to \<open>n\<close> bytes from the front of the
  queue, left in place under \<open>MSG_PEEK\<close>.
\<close>

definition stream_take :: "syscall \<Rightarrow> bool \<Rightarrow> nat \<Rightarrow> stream \<Rightarrow> io \<times> stream" where
  "stream_take c peek n s =
     (case next_fault s of
        (Some e, s1) \<Rightarrow> logcall c (Failed e) s1
      | (None, s1) \<Rightarrow>
          if rxq s1 = [] then
            logcall c (if peer_closed s1 then Got [] else Failed EAGAIN) s1
          else
            logcall c (Got (take n (rxq s1)))
              (if peek then s1 else s1\<lparr>rxq := drop n (rxq s1)\<rparr>))"

definition recv_peek :: "nat \<Rightarrow> stream \<Rightarrow> io \<times> stream" where
  "recv_peek n s = stream_take SysPeek True n s"

definition recv :: "nat \<Rightarrow> stream \<Rightarrow> io \<times> stream" where
  "recv n s = stream_take SysRecv False n s"

text \<open>\<open>readv\<close> over iovecs of the given lengths: the caller scatters the bytes.\<close>

definition readv :: "nat list \<Rightarrow> stream \<Rightarrow> io \<times> stream" where
  "readv iov_lens s = stream_take SysReadv False (sum_list iov_lens) s"

text \<open>\<open>Socket::read(buf, n)\<close> on a stream socket.\<close>

definition stream_read :: "nat \<Rightarrow> stream \<Rightarrow> io \<times> stream" where
  "stream_read n s = stream_take SysRead False n s"

text \<open>
  \<open>Socket::read(buf, n)\<close> on a datagram socket: one whole datagram leaves the queue,
  and what does not fit in \<open>n\<close> bytes is lost.
\<close>

definition dgram_read :: "nat \<Rightarrow> dgram \<Rightarrow> io \<times> dgram" where
  "dgram_read n s =
     (case next_fault s of
        (Some e, s1) \<Rightarrow> logcall SysRead (Failed e) s1
      | (None, s1) \<Rightarrow>
          (case rxq s1 of
             [] \<Rightarrow> logcall SysRead (if peer_closed s1 then Got [] else Failed EAGAIN) s1
           | d # ds \<Rightarrow> logcall SysRead (Got (take n d)) (s1\<lparr>rxq := ds\<rparr>)))"

text \<open>
  Modelled from the spec: \<open>swoole_event_writev\<close> and \<open>Socket::writev_sync\<close>, between
  which \<open>send_fn\<close> chooses, are not part of the sources at hand. Section 5: the handoff is
  complete on return, and the synchronous call retries short writes. So a call either
  fails with an errno or transfers every byte of its iovecs, and returns their total
  length.
\<close>

definition send_fn :: "byte list list \<Rightarrow> 'q Socket \<Rightarrow> io \<times> 'q Socket" where
  "send_fn iov s =
     (case next_fault s of
        (Some e, s1) \<Rightarrow> logcall SysWritev (Failed e) s1
      | (None, s1) \<Rightarrow> logcall SysWritev (Got (concat iov)) (s1\<lparr>tx := tx s1 @ [concat iov]\<rparr>))"

section \<open>The message bus\<close>

subsection \<open>Data\<close>

text \<open>
  Pointers are symbolic. A \<open>char *\<close> is null, or points into memory that the caller
  owns (\<open>UserMem a\<close>, the block at address \<open>a\<close>), or at the inline region of the
  chunk buffer (\<open>InlineData\<close>), or at the storage of the reassembly buffer that the pool
  holds under a message id (\<open>PoolStr k\<close>).
\<close>

type_synonym addr = nat

datatype char_ptr = Nullptr | UserMem addr | InlineData | PoolStr "64 word"

text \<open>The caller's memory: the bytes of the block that starts at an address.\<close>

type_synonym memory = "addr \<Rightarrow> byte list"

record PacketPtr =
  pkt_length :: nat
  pkt_data :: char_ptr

text \<open>
  \<open>swoole::String\<close>: \<open>str\<close> is the storage (\<open>None\<close> is \<open>nullptr\<close>), \<open>length\<close> the
  number of bytes in use and \<open>size\<close> the capacity.
\<close>

record String =
  str :: "byte list option"
  str_length :: nat
  str_size :: nat

text \<open>
  The inline region \<open>data\<close> of a \<open>PipeBuffer\<close> holds bytes that came from a socket, or
  the representation of a \<open>PacketPtr\<close> (\<open>pass\<close>) or of a \<open>String *\<close>
  (\<open>prepare_packet\<close>) that a \<open>memcpy\<close> stored there. A \<open>String *\<close> is the key of the
  pool entry that owns the object.
\<close>

datatype inline_data = Raw "byte list" | PktVal PacketPtr | ObjVal "64 word"

text \<open>\<open>PipeBuffer\<close> and \<open>SendData\<close>: a header followed by inline data or by a pointer.\<close>

record 'd framed =
  info :: DataHead
  data :: 'd

type_synonym PipeBuffer = "inline_data framed"
type_synonym SendData = "char_ptr framed"

datatype log_level = SW_LOG_WARNING

datatype error_code = SW_ERROR_SERVER_WORKER_ABNORMAL_PIPE_DATA

datatype log_entry =
  swoole_warning string
| swoole_error_log log_level error_code "64 word" "16 word"

text \<open>
  The state of a \<open>MessageBus\<close>. Modelled from the spec: the injected allocator
  (section 6) is the predicate that tells whether a request of that many bytes succeeds.
  \<open>logs\<close> is what the bus has sent to the process-wide logger.
\<close>

record MessageBus =
  buffer_size :: nat
  buffer :: PipeBuffer
  packet_pool :: "64 word \<rightharpoonup> String"
  always_chunked_transfer :: bool
  allocator :: "nat \<Rightarrow> bool"
  logs :: "log_entry list"

datatype exn = bad_alloc | null_deref

definition is_chunked :: "'d framed \<Rightarrow> bool" where
  "is_chunked b = (flags (info b) AND SW_EVENT_DATA_CHUNK \<noteq> 0)"

definition is_begin :: "'d framed \<Rightarrow> bool" where
  "is_begin b = (flags (info b) AND SW_EVENT_DATA_BEGIN \<noteq> 0)"

definition is_end :: "'d framed \<Rightarrow> bool" where
  "is_end b = (flags (info b) AND SW_EVENT_DATA_END \<noteq> 0)"

definition set_flags :: "8 word \<Rightarrow> 'd framed \<Rightarrow> 'd framed" where
  "set_flags f b = b\<lparr>info := (info b)\<lparr>flags := f\<rparr>\<rparr>"

definition set_len :: "32 word \<Rightarrow> 'd framed \<Rightarrow> 'd framed" where
  "set_len n b = b\<lparr>info := (info b)\<lparr>len := n\<rparr>\<rparr>"

definition set_msg_id :: "64 word \<Rightarrow> 'd framed \<Rightarrow> 'd framed" where
  "set_msg_id k b = b\<lparr>info := (info b)\<lparr>msg_id := k\<rparr>\<rparr>"

definition log_msg :: "log_entry \<Rightarrow> MessageBus \<Rightarrow> MessageBus" where
  "log_msg e b = b\<lparr>logs := logs b @ [e]\<rparr>"

subsection \<open>Packet access\<close>

text \<open>
  \<open>MessageBus::get_packet\<close>. The result is \<open>None\<close> where the C code reads a pointer out
  of inline bytes that hold none: the model has no value for it.
\<close>

definition get_packet :: "MessageBus \<Rightarrow> PacketPtr option" where
  "get_packet b =
     (if flags (info (buffer b)) AND SW_EVENT_DATA_PTR \<noteq> 0 then
        (case data (buffer b) of PktVal pkt \<Rightarrow> Some pkt | _ \<Rightarrow> None)
      else if flags (info (buffer b)) AND SW_EVENT_DATA_OBJ_PTR \<noteq> 0 then
        (case data (buffer b) of
           ObjVal k \<Rightarrow>
             (case packet_pool b k of
                Some object \<Rightarrow>
                  Some \<lparr>pkt_length = str_length object,
                        pkt_data = (case str object of None \<Rightarrow> Nullptr | Some _ \<Rightarrow> PoolStr k)\<rparr>
              | None \<Rightarrow> None)
         | _ \<Rightarrow> None)
      else Some \<lparr>pkt_length = unat (len (info (buffer b))), pkt_data = InlineData\<rparr>)"

text \<open>
  The bytes of the inline region: those that came from a socket. The bytes of a stored
  pointer have no value in the model.
\<close>

fun raw_bytes :: "inline_data \<Rightarrow> byte list" where
  "raw_bytes (Raw bs) = bs"
| "raw_bytes _ = []"

text \<open>
  What a caller reads through a \<open>PacketPtr\<close>: \<open>pkt_length\<close> bytes at \<open>pkt_data\<close>, when
  that many bytes are there.
\<close>

definition bytes_at :: "nat \<Rightarrow> byte list \<Rightarrow> byte list option" where
  "bytes_at n bs = (if n \<le> length bs then Some (take n bs) else None)"

definition packet_bytes :: "memory \<Rightarrow> MessageBus \<Rightarrow> PacketPtr \<Rightarrow> byte list option" where
  "packet_bytes mem b pkt =
     (case pkt_data pkt of
        Nullptr \<Rightarrow> None
      | UserMem a \<Rightarrow> bytes_at (pkt_length pkt) (mem a)
      | InlineData \<Rightarrow> bytes_at (pkt_length pkt) (raw_bytes (data (buffer b)))
      | PoolStr k \<Rightarrow>
          (case packet_pool b k of
             Some object \<Rightarrow>
               (case str object of Some bs \<Rightarrow> bytes_at (pkt_length pkt) bs | None \<Rightarrow> None)
           | None \<Rightarrow> None))"

text \<open>\<open>MessageBus::pass\<close>.\<close>

definition pass :: "SendData \<Rightarrow> MessageBus \<Rightarrow> MessageBus" where
  "pass task b =
     (let b1 = b\<lparr>buffer := (buffer b)\<lparr>info := info task\<rparr>\<rparr> in
      if len (info task) > 0 then
        b1\<lparr>buffer :=
             (set_len (of_nat sizeof_PacketPtr) (set_flags SW_EVENT_DATA_PTR (buffer b1)))
               \<lparr>data := PktVal \<lparr>pkt_length = unat (len (info task)), pkt_data = data task\<rparr>\<rparr>\<rparr>
      else b1)"

text \<open>
  \<open>MessageBus::move_packet\<close>: the returned \<open>char *\<close> is the storage itself, which
  leaves the \<open>String\<close>.
\<close>

definition move_packet :: "MessageBus \<Rightarrow> byte list option \<times> MessageBus" where
  "move_packet b =
     (let msg_id = msg_id (info (buffer b)) in
      case packet_pool b msg_id of
        Some s \<Rightarrow> (str s, b\<lparr>packet_pool := (packet_pool b)(msg_id \<mapsto> s\<lparr>str := None\<rparr>)\<rparr>)
      | None \<Rightarrow> (None, b))"

subsection \<open>The reassembly pool\<close>

text \<open>
  Modelled from the spec: \<open>make_string\<close> is not part of the sources at hand. It
  allocates a \<open>String\<close> of the given capacity through the allocator; section 7 has an
  allocation failure abort the current operation, which is the exception \<open>bad_alloc\<close>
  here. Fresh storage is taken as zeroed.
\<close>

definition make_string :: "nat \<Rightarrow> (nat \<Rightarrow> bool) \<Rightarrow> exn + String" where
  "make_string n alloc =
     (if alloc n then Inr \<lparr>str = Some (replicate n 0), str_length = 0, str_size = n\<rparr>
      else Inl bad_alloc)"

text \<open>
  \<open>MessageBus::get_packet_buffer\<close>. The \<open>String *\<close> it returns is the key of the pool
  entry, \<open>None\<close> for \<open>nullptr\<close>.
\<close>

definition get_packet_buffer :: "MessageBus \<Rightarrow> exn + (64 word option \<times> MessageBus)" where
  "get_packet_buffer b =
     (let k = msg_id (info (buffer b)) in
      case packet_pool b k of
        None \<Rightarrow>
          if \<not> is_begin (buffer b) then Inr (None, b)
          else
            (case make_string (unat (len (info (buffer b)))) (allocator b) of
               Inl e \<Rightarrow> Inl e
             | Inr packet_buffer \<Rightarrow>
                 Inr (Some k, b\<lparr>packet_pool := (packet_pool b)(k \<mapsto> packet_buffer)\<rparr>))
      | Some s \<Rightarrow> Inr (Some k, b))"

text \<open>
  \<open>MessageBus::prepare_packet\<close>. \<open>recv_chunk_count\<close> is a \<open>uint16_t\<close> passed by
  reference; \<open>maxc\<close> is \<open>SW_WORKER_MAX_RECV_CHUNK_COUNT\<close>, whose definition is not part
  of the sources at hand and is a parameter of the model.
\<close>

definition prepare_packet ::
  "nat \<Rightarrow> 16 word \<Rightarrow> 64 word \<Rightarrow> MessageBus \<Rightarrow> ReturnCode \<times> 16 word \<times> MessageBus" where
  "prepare_packet maxc recv_chunk_count packet_buffer b =
     (let c = recv_chunk_count + 1 in
      if \<not> is_end (buffer b) then
        (if unat c \<ge> maxc then (SW_WAIT, c, b) else (SW_CONTINUE, c, b))
      else
        (SW_READY, c,
         b\<lparr>buffer :=
             (set_flags (flags (info (buffer b)) OR SW_EVENT_DATA_OBJ_PTR) (buffer b))
               \<lparr>data := ObjVal packet_buffer\<rparr>\<rparr>))"

subsection \<open>The reader\<close>

text \<open>What a call returns: an \<open>ssize_t\<close>, or the exception that leaves it.\<close>

datatype ret = Ret int | Throw exn

text \<open>
  Bytes written at an offset of a storage. Writing past its end is undefined behaviour in
  C; the model then lets the storage grow.
\<close>

definition write_at :: "nat \<Rightarrow> byte list \<Rightarrow> byte list \<Rightarrow> byte list" where
  "write_at off new old = take off old @ new @ drop (off + length new) old"

definition store_data :: "byte list \<Rightarrow> inline_data \<Rightarrow> inline_data" where
  "store_data new d = (if new = [] then d else Raw (overlay new (raw_bytes d)))"

text \<open>The bytes that a read delivered into a \<open>PipeBuffer\<close>: header first, then \<open>data\<close>.\<close>

fun store_buffer :: "io \<Rightarrow> PipeBuffer \<Rightarrow> PipeBuffer" where
  "store_buffer (Failed e) buf = buf"
| "store_buffer (Got bs) buf =
     buf\<lparr>info := store_head bs (info buf), data := store_data (drop sizeof_DataHead bs) (data buf)\<rparr>"

text \<open>
  \<open>recv_n - sizeof(buffer_->info)\<close> in \<open>size_t\<close> arithmetic: it wraps around when
  fewer bytes than a header arrived.
\<close>

definition size_t_sub :: "nat \<Rightarrow> nat \<Rightarrow> nat" where
  "size_t_sub a b = (2 ^ 64 + a - b) mod 2 ^ 64"

text \<open>
  The \<open>switch\<close> on \<open>prepare_packet\<close> that ends an iteration of both readers: on the
  left what the call returns, on the right the state with which it jumps back to
  \<open>_read_from_pipe\<close>.
\<close>

definition finish_chunk ::
  "nat \<Rightarrow> 16 word \<Rightarrow> 64 word \<Rightarrow> int \<Rightarrow> MessageBus \<Rightarrow> 'q Socket \<Rightarrow>
   (ret \<times> MessageBus \<times> 'q Socket) + (16 word \<times> MessageBus \<times> 'q Socket)" where
  "finish_chunk maxc recv_chunk_count packet_buffer recv_n b s =
     (case prepare_packet maxc recv_chunk_count packet_buffer b of
        (SW_READY, c, b1) \<Rightarrow> Inl (Ret recv_n, b1, s)
      | (SW_CONTINUE, c, b1) \<Rightarrow> Inr (c, b1, s)
      | (SW_WAIT, c, b1) \<Rightarrow> Inl (Ret SW_OK, b1, s)
      | (_, c, b1) \<Rightarrow> Inl (Ret SW_ERR, b1, s))"

text \<open>
  \<open>MessageBus::read\<close> from the vectorized read on (lines 151 to 180), for the reassembly
  buffer \<open>packet_buffer\<close>. A failure of \<open>readv\<close> that is not classified as WAIT falls
  through to \<open>prepare_packet\<close>, as in the source.
\<close>

definition read_chunk ::
  "nat \<Rightarrow> 16 word \<Rightarrow> 64 word \<Rightarrow> MessageBus \<Rightarrow> stream \<Rightarrow>
   (ret \<times> MessageBus \<times> stream) + (16 word \<times> MessageBus \<times> stream)" where
  "read_chunk maxc recv_chunk_count packet_buffer b s =
     (case packet_pool b packet_buffer of
        None \<Rightarrow> Inl (Throw null_deref, b, s)
      | Some pb \<Rightarrow>
          let remain_len = size_t_sub (unat (len (info (buffer b)))) (str_length pb);
              iov_len = min (size_t_sub (buffer_size b) sizeof_DataHead) remain_len
          in
            (case readv [sizeof_DataHead, iov_len] s of
               (Failed e, s1) \<Rightarrow>
                 if catch_read_error e = SW_WAIT then Inl (Ret SW_OK, b, s1)
                 else finish_chunk maxc recv_chunk_count packet_buffer (- 1) b s1
             | (Got bs, s1) \<Rightarrow>
                 if bs = [] then
                   Inl (Ret SW_ERR, log_msg (swoole_warning ''receive pipeline data error'') b, s1)
                 else
                   finish_chunk maxc recv_chunk_count packet_buffer (int (length bs))
                     (b\<lparr>buffer := (buffer b)\<lparr>info := store_head bs (info (buffer b))\<rparr>,
                        packet_pool := (packet_pool b)(packet_buffer \<mapsto>
                          pb\<lparr>str := map_option (write_at (str_length pb) (drop sizeof_DataHead bs)) (str pb),
                             str_length :=
                               (str_length pb + size_t_sub (length bs) sizeof_DataHead) mod 2 ^ 64\<rparr>)\<rparr>)
                     s1))"

text \<open>One pass from the label \<open>_read_from_pipe\<close> of \<open>MessageBus::read\<close>.\<close>

definition read_step ::
  "nat \<Rightarrow> 16 word \<Rightarrow> MessageBus \<Rightarrow> stream \<Rightarrow>
   (ret \<times> MessageBus \<times> stream) + (16 word \<times> MessageBus \<times> stream)" where
  "read_step maxc recv_chunk_count b s =
     (case recv_peek sizeof_DataHead s of
        (Failed e, s1) \<Rightarrow>
          if catch_read_error e = SW_WAIT then Inl (Ret SW_OK, b, s1) else Inl (Ret SW_ERR, b, s1)
      | (Got hb, s1) \<Rightarrow>
          if hb = [] then
            Inl (Ret SW_ERR, log_msg (swoole_warning ''receive data from socket returns 0'') b, s1)
          else
            let b1 = b\<lparr>buffer := (buffer b)\<lparr>info := store_head hb (info (buffer b))\<rparr>\<rparr> in
            if \<not> is_chunked (buffer b1) then
              (case stream_read (sizeof_DataHead + unat (len (info (buffer b1)))) s1 of
                 (r, s2) \<Rightarrow> Inl (Ret (ssize r), b1\<lparr>buffer := store_buffer r (buffer b1)\<rparr>, s2))
            else
              (case get_packet_buffer b1 of
                 Inl e \<Rightarrow> Inl (Throw e, b1, s1)
               | Inr (None, b2) \<Rightarrow>
                   (case recv sizeof_DataHead s1 of
                      (r, s2) \<Rightarrow>
                        Inl (Ret SW_OK,
                             (log_msg
                                (swoole_error_log SW_LOG_WARNING SW_ERROR_SERVER_WORKER_ABNORMAL_PIPE_DATA
                                   (msg_id (info (buffer b2))) (reactor_id (info (buffer b2))))
                                b2)
                               \<lparr>buffer := (buffer b2)\<lparr>info :=
                                  (case r of Failed e \<Rightarrow> info (buffer b2)
                                   | Got bs \<Rightarrow> store_head bs (info (buffer b2)))\<rparr>\<rparr>,
                             s2))
               | Inr (Some packet_buffer, b2) \<Rightarrow>
                   read_chunk maxc recv_chunk_count packet_buffer b2 s1))"

text \<open>
  The loop of \<open>MessageBus::read\<close> ends: every pass that jumps back has taken a byte
  from the queue or an entry from the script.
\<close>

lemma stream_take_measure:
  "stream_take c peek n s = (r, s1) \<Longrightarrow>
     length (script s1) + length (rxq s1) \<le> length (script s) + length (rxq s)"
  by (auto simp: stream_take_def logcall_def next_fault_def
      split: list.splits option.splits if_splits)

lemma stream_take_peek_Got:
  "stream_take c True n s = (Got bs, s1) \<Longrightarrow> bs \<noteq> [] \<Longrightarrow> rxq s1 \<noteq> []"
  by (auto simp: stream_take_def logcall_def next_fault_def
      split: list.splits option.splits if_splits)

lemma stream_take_consume:
  "stream_take c False n s = (r, s1) \<Longrightarrow> rxq s \<noteq> [] \<Longrightarrow>
   (case r of Failed e \<Rightarrow> True | Got bs \<Rightarrow> bs \<noteq> []) \<Longrightarrow>
     length (script s1) + length (rxq s1) < length (script s) + length (rxq s)"
  by (auto simp: stream_take_def logcall_def next_fault_def
      split: list.splits option.splits if_splits io.splits)

lemma finish_chunk_Inr:
  "finish_chunk maxc c k n b s = Inr (c', b', s') \<Longrightarrow> s' = s"
  by (auto simp: finish_chunk_def split: prod.splits ReturnCode.splits)

lemma read_chunk_decreases:
  "read_chunk maxc c k b s = Inr (c', b', s') \<Longrightarrow> rxq s \<noteq> [] \<Longrightarrow>
     length (script s') + length (rxq s') < length (script s) + length (rxq s)"
  unfolding read_chunk_def readv_def Let_def
  by (auto split: option.splits prod.splits io.splits if_splits
      dest!: finish_chunk_Inr dest: stream_take_consume)

lemma read_step_decreases:
  "read_step maxc c b s = Inr (c', b', s') \<Longrightarrow>
     length (script s') + length (rxq s') < length (script s) + length (rxq s)"
  unfolding read_step_def recv_peek_def Let_def
  apply (auto split: option.splits prod.splits io.splits if_splits sum.splits)
  apply (frule stream_take_peek_Got, assumption)
  apply (drule stream_take_measure)
  apply (drule read_chunk_decreases, assumption)
  apply simp
  done

function read_loop ::
  "nat \<Rightarrow> 16 word \<Rightarrow> MessageBus \<Rightarrow> stream \<Rightarrow> ret \<times> MessageBus \<times> stream" where
  "read_loop maxc recv_chunk_count b s =
     (case read_step maxc recv_chunk_count b s of
        Inl r \<Rightarrow> r
      | Inr (c, b1, s1) \<Rightarrow> read_loop maxc c b1 s1)"
  by pat_completeness auto
termination
  by (relation "measure (\<lambda>(maxc, c, b, s). length (script s) + length (rxq s))")
     (auto dest: read_step_decreases)

declare read_loop.simps [simp del]

text \<open>\<open>MessageBus::read\<close>: \<open>recv_chunk_count\<close> starts at 0.\<close>

definition read :: "nat \<Rightarrow> MessageBus \<Rightarrow> stream \<Rightarrow> ret \<times> MessageBus \<times> stream" where
  "read maxc b s = read_loop maxc 0 b s"

text \<open>
  Modelled from the spec: \<open>String::append\<close> is not part of the sources at hand. It
  copies the bytes behind the bytes in use (section 4.5) and counts them.
\<close>

definition append :: "byte list \<Rightarrow> String \<Rightarrow> String" where
  "append bs pb =
     pb\<lparr>str := map_option (write_at (str_length pb) bs) (str pb),
        str_length := str_length pb + length bs,
        str_size := max (str_size pb) (str_length pb + length bs)\<rparr>"

text \<open>
  One pass from the label \<open>_read_from_pipe\<close> of \<open>MessageBus::read_with_buffer\<close>. The
  counter is incremented here and once more in \<open>prepare_packet\<close>.
\<close>

definition read_with_buffer_step ::
  "nat \<Rightarrow> 16 word \<Rightarrow> MessageBus \<Rightarrow> dgram \<Rightarrow>
   (ret \<times> MessageBus \<times> dgram) + (16 word \<times> MessageBus \<times> dgram)" where
  "read_with_buffer_step maxc recv_chunk_count b s =
     (case dgram_read (buffer_size b) s of
        (Failed e, s1) \<Rightarrow>
          if catch_read_error e = SW_WAIT then Inl (Ret SW_OK, b, s1) else Inl (Ret SW_ERR, b, s1)
      | (Got bs, s1) \<Rightarrow>
          if bs = [] then
            Inl (Ret SW_ERR, log_msg (swoole_warning ''receive data from socket returns 0'') b, s1)
          else
            let b1 = b\<lparr>buffer := store_buffer (Got bs) (buffer b)\<rparr>;
                c1 = recv_chunk_count + 1
            in
              if \<not> is_chunked (buffer b1) then Inl (Ret (int (length bs)), b1, s1)
              else
                (case get_packet_buffer b1 of
                   Inl e \<Rightarrow> Inl (Throw e, b1, s1)
                 | Inr (None, b2) \<Rightarrow>
                     Inl (Ret SW_ERR,
                          log_msg
                            (swoole_error_log SW_LOG_WARNING SW_ERROR_SERVER_WORKER_ABNORMAL_PIPE_DATA
                               (msg_id (info (buffer b2))) (reactor_id (info (buffer b2))))
                            b2,
                          s1)
                 | Inr (Some packet_buffer, b2) \<Rightarrow>
                     (case packet_pool b2 packet_buffer of
                        None \<Rightarrow> Inl (Throw null_deref, b2, s1)
                      | Some pb \<Rightarrow>
                          finish_chunk maxc c1 packet_buffer (int (length bs))
                            (b2\<lparr>packet_pool := (packet_pool b2)(packet_buffer \<mapsto>
                                append
                                  (take (size_t_sub (length bs) sizeof_DataHead)
                                     (raw_bytes (data (buffer b2))))
                                  pb)\<rparr>)
                            s1)))"

lemma dgram_read_Got:
  "dgram_read n s = (Got bs, s1) \<Longrightarrow> bs \<noteq> [] \<Longrightarrow> length (rxq s1) < length (rxq s)"
  by (auto simp: dgram_read_def logcall_def next_fault_def
      split: list.splits option.splits if_splits)

lemma read_with_buffer_step_decreases:
  "read_with_buffer_step maxc c b s = Inr (c', b', s') \<Longrightarrow> length (rxq s') < length (rxq s)"
  unfolding read_with_buffer_step_def Let_def
  by (auto split: option.splits prod.splits io.splits if_splits sum.splits
      dest!: finish_chunk_Inr dest: dgram_read_Got)

function read_with_buffer_loop ::
  "nat \<Rightarrow> 16 word \<Rightarrow> MessageBus \<Rightarrow> dgram \<Rightarrow> ret \<times> MessageBus \<times> dgram" where
  "read_with_buffer_loop maxc recv_chunk_count b s =
     (case read_with_buffer_step maxc recv_chunk_count b s of
        Inl r \<Rightarrow> r
      | Inr (c, b1, s1) \<Rightarrow> read_with_buffer_loop maxc c b1 s1)"
  by pat_completeness auto
termination
  by (relation "measure (\<lambda>(maxc, c, b, s). length (rxq s))")
     (auto dest: read_with_buffer_step_decreases)

declare read_with_buffer_loop.simps [simp del]

text \<open>\<open>MessageBus::read_with_buffer\<close>.\<close>

definition read_with_buffer :: "nat \<Rightarrow> MessageBus \<Rightarrow> dgram \<Rightarrow> ret \<times> MessageBus \<times> dgram" where
  "read_with_buffer maxc b s = read_with_buffer_loop maxc 0 b s"

subsection \<open>The writer\<close>

text \<open>The bytes behind the payload pointer of a \<open>SendData\<close>.\<close>

fun payload_bytes :: "memory \<Rightarrow> char_ptr \<Rightarrow> byte list" where
  "payload_bytes mem (UserMem a) = mem a"
| "payload_bytes mem _ = []"

text \<open>
  The \<open>while\<close> loop of \<open>MessageBus::write\<close> (lines 282 to 314). \<open>ipc\<close> is
  \<open>SW_IPC_BUFFER_SIZE\<close>, whose definition is not part of the sources at hand and is a
  parameter of the model. The loop need not end (a \<open>max_length\<close> of 0 sends empty
  slices for ever): not returning is the value \<open>None\<close>.
\<close>

partial_function (option) write_loop ::
  "nat \<Rightarrow> byte list \<Rightarrow> nat \<Rightarrow> nat \<Rightarrow> nat \<Rightarrow> SendData \<Rightarrow> 'q Socket \<Rightarrow>
   (bool \<times> SendData \<times> 'q Socket) option" where
  "write_loop ipc payload max_length l_payload offset resp sock =
     (if l_payload > 0 then
        (let copy_n = (if l_payload > max_length then max_length else l_payload);
             resp1 =
               (if l_payload > max_length then resp
                else set_flags (flags (info resp) OR SW_EVENT_DATA_END) resp)
         in
           case send_fn [encode_head (info resp1), take copy_n (drop offset payload)] sock of
             (Failed e, sock1) \<Rightarrow>
               if catch_write_pipe_error e = SW_REDUCE_SIZE \<and> max_length > ipc then
                 write_loop ipc payload ipc l_payload offset
                   (if flags (info resp1) AND SW_EVENT_DATA_END \<noteq> 0
                    then set_flags (flags (info resp1) AND NOT SW_EVENT_DATA_END) resp1
                    else resp1)
                   sock1
               else Some (False, resp1, sock1)
           | (Got _, sock1) \<Rightarrow>
               write_loop ipc payload max_length (l_payload - copy_n) (offset + copy_n)
                 (if flags (info resp1) AND SW_EVENT_DATA_BEGIN \<noteq> 0
                  then set_flags (flags (info resp1) AND NOT SW_EVENT_DATA_BEGIN) resp1
                  else resp1)
                 sock1)
      else Some (True, resp, sock))"

text \<open>\<open>MessageBus::write\<close> from line 279 on: the chunked path.\<close>

definition write_chunked ::
  "nat \<Rightarrow> byte list \<Rightarrow> nat \<Rightarrow> nat \<Rightarrow> SendData \<Rightarrow> 'q Socket \<Rightarrow>
   (bool \<times> SendData \<times> 'q Socket) option" where
  "write_chunked ipc payload max_length l_payload resp sock =
     write_loop ipc payload max_length l_payload 0
       (set_len (of_nat l_payload)
          (set_flags (SW_EVENT_DATA_CHUNK OR SW_EVENT_DATA_BEGIN) resp))
       sock"

text \<open>
  \<open>uint32_t max_length = buffer_size_ - sizeof(resp->info)\<close>: a \<open>size_t\<close>
  difference, cut to 32 bits.
\<close>

definition max_length_of :: "MessageBus \<Rightarrow> nat" where
  "max_length_of b = size_t_sub (buffer_size b) sizeof_DataHead mod 2 ^ 32"

text \<open>
  \<open>MessageBus::write\<close>. \<open>new_id\<close> is what the injected \<open>id_generator_\<close> returns.
\<close>

definition "write" ::
  "nat \<Rightarrow> memory \<Rightarrow> 64 word \<Rightarrow> MessageBus \<Rightarrow> 'q Socket \<Rightarrow> SendData \<Rightarrow>
   (bool \<times> SendData \<times> 'q Socket) option" where
  "write ipc mem new_id b sock resp0 =
     (let payload = data resp0;
          l_payload = unat (len (info resp0));
          max_length = max_length_of b;
          resp = set_msg_id new_id resp0
      in
        if l_payload = 0 \<or> payload = Nullptr then
          (let resp1 = set_len 0 (set_flags 0 resp) in
           case send_fn [encode_head (info resp1)] sock of
             (r, sock1) \<Rightarrow> Some (ssize r = int sizeof_DataHead, resp1, sock1))
        else if \<not> always_chunked_transfer b \<and> l_payload \<le> max_length then
          (let resp1 = set_len (of_nat l_payload) (set_flags 0 resp) in
           case send_fn [encode_head (info resp1), take l_payload (payload_bytes mem payload)] sock of
             (r, sock1) \<Rightarrow>
               if ssize r = int (sizeof_DataHead + l_payload) then Some (True, resp1, sock1)
               else if (case r of Failed e \<Rightarrow> catch_write_pipe_error e = SW_REDUCE_SIZE
                        | Got _ \<Rightarrow> False) \<and> max_length > ipc
               then write_chunked ipc (payload_bytes mem payload) ipc l_payload resp1 sock1
               else Some (False, resp1, sock1))
        else write_chunked ipc (payload_bytes mem payload) max_length l_payload resp sock)"

section \<open>Headers survive the wire\<close>

lemma length_le_bytes [simp]: "length (le_bytes n v) = n"
  by (induction n arbitrary: v) auto

lemma le_nat_le_bytes: "le_nat (le_bytes n v) = v mod 256 ^ n"
proof (induction n arbitrary: v)
  case 0
  then show ?case by simp
next
  case (Suc n)
  have "unat (of_nat (v mod 256) :: byte) = v mod 256"
    by (simp add: unat_of_nat)
  then show ?case
    using Suc by (simp add: mod_mult2_eq)
qed

lemma length_encode_head [simp]: "length (encode_head h) = 40"
  by (simp add: encode_head_def)

lemma field_unat:
  "le_nat (le_bytes n (unat (w :: 'a::len word))) = unat w" if "LENGTH('a) = 8 * n"
proof -
  have "unat w < 2 ^ (8 * n)"
    using unsigned_less [of w] that by simp
  also have "(2::nat) ^ (8 * n) = 256 ^ n"
    by (simp add: power_mult)
  finally show ?thesis
    by (simp add: le_nat_le_bytes)
qed

lemma unat_byte_mod [simp]: "unat (w :: 8 word) mod 256 = unat w"
  using unsigned_less [of w, where ?'a = nat] by simp

lemma decode_encode_head [simp]: "decode_head (encode_head h) = h"
  by (simp add: decode_head_def encode_head_def field_def field_unat)

lemma store_head_encode [simp]: "store_head (encode_head h @ rest) h0 = h"
  by (simp add: store_head_def overlay_def sizeof_DataHead_def)

lemma store_head_encode_only [simp]: "store_head (encode_head h) h0 = h"
  using store_head_encode [of h "[]" h0] by simp

lemma encode_head_nonempty [simp]: "encode_head h \<noteq> []"
  by (auto dest: arg_cong [where f = length])

section \<open>Sockets on which the coming calls do not fail\<close>

text \<open>No failure is scheduled for the next \<open>n\<close> system calls.\<close>

definition quiet :: "nat \<Rightarrow> 'q Socket \<Rightarrow> bool" where
  "quiet n s = (\<forall>e \<in> set (take n (script s)). e = None)"

lemma quiet_next_fault:
  "quiet (Suc n) s \<Longrightarrow>
     \<exists>s1. next_fault s = (None, s1) \<and> quiet n s1 \<and> rxq s1 = rxq s \<and> tx s1 = tx s \<and>
       calls s1 = calls s \<and> peer_closed s1 = peer_closed s \<and> script s1 = tl (script s)"
  by (auto simp: quiet_def next_fault_def split: list.splits)

lemma peek_header:
  assumes "quiet (Suc n) s" "rxq s = encode_head h @ rest"
  shows "\<exists>s1. recv_peek sizeof_DataHead s = (Got (encode_head h), s1) \<and> quiet n s1 \<and>
           rxq s1 = rxq s \<and> calls s1 = calls s @ [(SysPeek, 40)] \<and> tx s1 = tx s \<and>
           script s1 = tl (script s) \<and> peer_closed s1 = peer_closed s"
proof -
  from quiet_next_fault [OF assms(1)] obtain s1 where
    s1: "next_fault s = (None, s1)" "quiet n s1" "rxq s1 = rxq s" "tx s1 = tx s"
      "calls s1 = calls s" "peer_closed s1 = peer_closed s" "script s1 = tl (script s)"
    by blast
  show ?thesis
    using s1 assms(2)
    by (simp add: recv_peek_def stream_take_def logcall_def sizeof_DataHead_def quiet_def)
qed

lemma take_stream:
  assumes "quiet (Suc n) s" "rxq s = bs @ rest" "bs \<noteq> []" "length bs = k"
  shows "\<exists>s1. stream_take c False k s = (Got bs, s1) \<and> quiet n s1 \<and>
           rxq s1 = rest \<and> calls s1 = calls s @ [(c, int k)] \<and> tx s1 = tx s \<and>
           script s1 = tl (script s) \<and> peer_closed s1 = peer_closed s"
proof -
  from quiet_next_fault [OF assms(1)] obtain s1 where
    s1: "next_fault s = (None, s1)" "quiet n s1" "rxq s1 = rxq s" "tx s1 = tx s"
      "calls s1 = calls s" "peer_closed s1 = peer_closed s" "script s1 = tl (script s)"
    by blast
  show ?thesis
    using s1 assms(2-)
    by (auto simp add: stream_take_def logcall_def quiet_def)
qed

section \<open>States for the examples\<close>

definition head0 :: DataHead where
  "head0 = \<lparr>fd = 0, msg_id = 0, len = 0, reactor_id = 0, type = 0, flags = 0,
             server_fd = 0, ext_flags = 0, time = 0\<rparr>"

text \<open>A bus of the given capacity whose pool is empty, and a socket that holds a queue.\<close>

definition bus0 :: "nat \<Rightarrow> MessageBus" where
  "bus0 n = \<lparr>buffer_size = n, buffer = \<lparr>info = head0, data = Raw []\<rparr>,
             packet_pool = Map.empty, always_chunked_transfer = False,
             allocator = (\<lambda>_. True), logs = []\<rparr>"

definition sock0 :: "'q \<Rightarrow> 'q Socket" where
  "sock0 q = \<lparr>rxq = q, tx = [], script = [], peer_closed = False, calls = []\<rparr>"

section \<open>Moving a packet out of the pool\<close>

text \<open>
  Claim C2, as amended. When the pool has an entry for the message id of the current
  buffer, \<open>move_packet\<close> hands the byte storage of that entry to the caller and leaves the
  entry in the pool with a null storage: the pool keeps the same keys, so it is not empty
  afterwards. (The claim has the entry destroyed.)
\<close>

theorem move_packet_detaches:
  assumes "packet_pool b (msg_id (info (buffer b))) = Some s"
  shows "fst (move_packet b) = str s \<and>
         packet_pool (snd (move_packet b)) (msg_id (info (buffer b))) = Some (s\<lparr>str := None\<rparr>) \<and>
         dom (packet_pool (snd (move_packet b))) = dom (packet_pool b)"
  using assms by (auto simp: move_packet_def Let_def)

text \<open>A bus whose only in-flight message, under id 7, is the current buffer.\<close>

definition bus_with_entry :: MessageBus where
  "bus_with_entry =
     (bus0 64)\<lparr>buffer := \<lparr>info = head0\<lparr>msg_id := 7\<rparr>, data = ObjVal 7\<rparr>,
               packet_pool := [7 \<mapsto> \<lparr>str = Some [1, 2, 3], str_length = 3, str_size = 3\<rparr>]\<rparr>"

theorem move_packet_detaches_witness:
  "fst (move_packet bus_with_entry) = Some [1, 2, 3] \<and>
   packet_pool (snd (move_packet bus_with_entry)) 7 =
     Some \<lparr>str = None, str_length = 3, str_size = 3\<rparr> \<and>
   dom (packet_pool (snd (move_packet bus_with_entry))) = {7}"
  using move_packet_detaches
    [of bus_with_entry "\<lparr>str = Some [1, 2, 3], str_length = 3, str_size = 3\<rparr>"]
  by (simp add: bus_with_entry_def bus0_def head0_def)

text \<open>
  Claim C2 as stated fails: after the only in-flight message has been moved, the pool
  still has its entry.
\<close>

theorem move_packet_entry_counterexample:
  "packet_pool bus_with_entry (msg_id (info (buffer bus_with_entry))) \<noteq> None \<and>
   fst (move_packet bus_with_entry) = Some [1, 2, 3] \<and>
   packet_pool (snd (move_packet bus_with_entry)) 7 \<noteq> None \<and>
   packet_pool (snd (move_packet bus_with_entry)) \<noteq> Map.empty"
  by (auto simp: move_packet_def bus_with_entry_def bus0_def head0_def Let_def
      dest: fun_cong [where x = 7])

section \<open>A chunk without its BEGIN\<close>

lemma read_loop_orphan:
  assumes "quiet 2 s" and "rxq s = encode_head h @ rest"
    and "flags h AND SW_EVENT_DATA_CHUNK \<noteq> 0" and "flags h AND SW_EVENT_DATA_BEGIN = 0"
    and "packet_pool b (msg_id h) = None"
  shows "\<exists>b' s'. read_loop maxc c b s = (Ret SW_OK, b', s') \<and>
           logs b' = logs b @ [swoole_error_log SW_LOG_WARNING
                                 SW_ERROR_SERVER_WORKER_ABNORMAL_PIPE_DATA (msg_id h) (reactor_id h)] \<and>
           calls s' = calls s @ [(SysPeek, 40), (SysRecv, 40)] \<and>
           rxq s' = rest \<and> packet_pool b' = packet_pool b"
proof -
  have q: "quiet (Suc (Suc 0)) s"
    using assms(1) by (simp add: numeral_2_eq_2)
  from peek_header [OF q assms(2)] obtain s1 where
    s1: "recv_peek sizeof_DataHead s = (Got (encode_head h), s1)" "quiet (Suc 0) s1"
      "rxq s1 = rxq s" "calls s1 = calls s @ [(SysPeek, 40)]"
    by blast
  from take_stream [OF s1(2), of "encode_head h" rest 40 SysRecv] s1(3) assms(2) obtain s2 where
    s2: "recv sizeof_DataHead s1 = (Got (encode_head h), s2)" "rxq s2 = rest"
      "calls s2 = calls s1 @ [(SysRecv, 40)]"
    by (auto simp: recv_def sizeof_DataHead_def)
  show ?thesis
    using assms(3-) s1 s2
    by (simp add: read_loop.simps [of maxc c b s] read_step_def is_chunked_def is_begin_def
        get_packet_buffer_def log_msg_def)
qed

text \<open>
  Claim C3. In stream mode, let the socket hold a chunk whose header \<open>h\<close> has CHUNK but
  not BEGIN and whose message id has no entry in the pool, and let the two coming system
  calls not fail. Then \<open>read\<close> logs the abnormal-pipe-data warning, takes exactly the
  header from the socket with a \<open>recv\<close> that does not peek (what followed the header
  stays in the socket), returns \<open>SW_OK\<close> and leaves the pool as it was, without an entry
  for that id.
\<close>

theorem stream_orphan_chunk:
  assumes "quiet 2 s" and "rxq s = encode_head h @ rest"
    and "flags h AND SW_EVENT_DATA_CHUNK \<noteq> 0" and "flags h AND SW_EVENT_DATA_BEGIN = 0"
    and "packet_pool b (msg_id h) = None"
  shows "\<exists>b' s'. read maxc b s = (Ret SW_OK, b', s') \<and>
           logs b' = logs b @ [swoole_error_log SW_LOG_WARNING
                                 SW_ERROR_SERVER_WORKER_ABNORMAL_PIPE_DATA (msg_id h) (reactor_id h)] \<and>
           calls s' = calls s @ [(SysPeek, 40), (SysRecv, 40)] \<and>
           rxq s' = rest \<and>
           packet_pool b' = packet_pool b \<and> packet_pool b' (msg_id h) = None"
  using read_loop_orphan [OF assms, of maxc 0] assms(5) by (auto simp: read_def)

text \<open>Scenario S4 of the spec: a chunk with CHUNK and no BEGIN, under message id 99.\<close>

definition orphan :: DataHead where
  "orphan = head0\<lparr>msg_id := 99, flags := SW_EVENT_DATA_CHUNK, len := 5\<rparr>"

theorem stream_orphan_chunk_witness:
  "\<exists>b' s'. read 32 (bus0 64) (sock0 (encode_head orphan @ [1, 2, 3, 4, 5])) = (Ret SW_OK, b', s') \<and>
     logs b' = [swoole_error_log SW_LOG_WARNING SW_ERROR_SERVER_WORKER_ABNORMAL_PIPE_DATA 99 0] \<and>
     calls s' = [(SysPeek, 40), (SysRecv, 40)] \<and>
     rxq s' = [1, 2, 3, 4, 5] \<and>
     packet_pool b' = Map.empty \<and> packet_pool b' 99 = None"
  using stream_orphan_chunk
    [of "sock0 (encode_head orphan @ [1, 2, 3, 4, 5])" orphan "[1, 2, 3, 4, 5]" "bus0 64" 32]
  by (simp add: quiet_def sock0_def bus0_def orphan_def head0_def SW_EVENT_DATA_CHUNK_def
      SW_EVENT_DATA_BEGIN_def)

text \<open>
  Claim C4, as amended. In datagram mode a chunk that has CHUNK but not BEGIN, under a
  message id that has no entry in the pool, is logged with the same warning, and
  \<open>read_with_buffer\<close> returns \<open>SW_ERR\<close>; the datagram has left the socket and the pool
  is as it was. (The claim has the call return \<open>SW_OK\<close>, as \<open>read\<close> does.)
\<close>

theorem dgram_orphan_chunk:
  assumes "quiet 1 s" and "rxq s = (encode_head h @ payload) # ds"
    and "flags h AND SW_EVENT_DATA_CHUNK \<noteq> 0" and "flags h AND SW_EVENT_DATA_BEGIN = 0"
    and "packet_pool b (msg_id h) = None"
    and "buffer_size b \<ge> 40"
  shows "\<exists>b' s'. read_with_buffer maxc b s = (Ret SW_ERR, b', s') \<and>
           logs b' = logs b @ [swoole_error_log SW_LOG_WARNING
                                 SW_ERROR_SERVER_WORKER_ABNORMAL_PIPE_DATA (msg_id h) (reactor_id h)] \<and>
           rxq s' = ds \<and> packet_pool b' = packet_pool b"
proof -
  have q: "quiet (Suc 0) s"
    using assms(1) by simp
  from quiet_next_fault [OF q] obtain s1 where
    s1: "next_fault s = (None, s1)" "rxq s1 = rxq s"
    by blast
  have t: "take (buffer_size b) (encode_head h @ payload) =
      encode_head h @ take (buffer_size b - 40) payload"
    using assms(6) by simp
  show ?thesis
    using assms(2-5) s1 t
    by (simp add: read_with_buffer_def read_with_buffer_loop.simps [of maxc 0 b s]
        read_with_buffer_step_def dgram_read_def logcall_def is_chunked_def is_begin_def
        get_packet_buffer_def log_msg_def)
qed

theorem dgram_orphan_chunk_witness:
  "\<exists>b' s'. read_with_buffer 32 (bus0 64) (sock0 [encode_head orphan @ [1, 2, 3, 4, 5]]) =
       (Ret SW_ERR, b', s') \<and>
     logs b' = [swoole_error_log SW_LOG_WARNING SW_ERROR_SERVER_WORKER_ABNORMAL_PIPE_DATA 99 0] \<and>
     rxq s' = [] \<and> packet_pool b' = Map.empty"
  using dgram_orphan_chunk
    [of "sock0 [encode_head orphan @ [1, 2, 3, 4, 5]]" orphan "[1, 2, 3, 4, 5]" "[]" "bus0 64" 32]
  by (simp add: quiet_def sock0_def bus0_def orphan_def head0_def SW_EVENT_DATA_CHUNK_def
      SW_EVENT_DATA_BEGIN_def)

text \<open>
  Claim C4 as stated fails: on the datagram of scenario S4 \<open>read_with_buffer\<close> returns
  \<open>SW_ERR\<close>, which is not \<open>SW_OK\<close>.
\<close>

theorem dgram_orphan_counterexample:
  "is_chunked \<lparr>info = orphan, data = Raw []\<rparr> \<and> \<not> is_begin \<lparr>info = orphan, data = Raw []\<rparr> \<and>
   packet_pool (bus0 64) (msg_id orphan) = None \<and>
   fst (read_with_buffer 32 (bus0 64) (sock0 [encode_head orphan @ [1, 2, 3, 4, 5]])) = Ret SW_ERR \<and>
   SW_ERR \<noteq> SW_OK"
  by (simp add: read_with_buffer_def read_with_buffer_loop.simps read_with_buffer_step_def
      dgram_read_def next_fault_def logcall_def sock0_def bus0_def orphan_def head0_def
      is_chunked_def is_begin_def get_packet_buffer_def SW_EVENT_DATA_CHUNK_def
      SW_EVENT_DATA_BEGIN_def SW_ERR_def SW_OK_def store_data_def overlay_def sizeof_DataHead_def)

section \<open>A failing vectorized read\<close>

text \<open>
  Claim C8 at a failing input. The stream holds the first chunk of a 50-byte message
  (CHUNK and BEGIN, no END) and the \<open>readv\<close> of the first pass fails with ECONNRESET,
  which is classified FATAL. \<open>read\<close> does not return \<open>SW_ERR\<close>: the failure falls
  through to \<open>prepare_packet\<close>, the loop peeks again, the second \<open>readv\<close> appends the
  24 bytes of the chunk to the reassembly buffer, and the call returns \<open>SW_OK\<close> when the
  socket is empty.
\<close>

definition begin_chunk :: DataHead where
  "begin_chunk =
     head0\<lparr>msg_id := 5, flags := SW_EVENT_DATA_CHUNK OR SW_EVENT_DATA_BEGIN, len := 50\<rparr>"

definition reset_sock :: stream where
  "reset_sock =
     (sock0 (encode_head begin_chunk @ replicate 24 1))\<lparr>script := [None, Some ECONNRESET]\<rparr>"

theorem readv_fatal_falls_through:
  "catch_read_error ECONNRESET = SW_FATAL \<and>
   (\<exists>b' s'. read 32 (bus0 64) reset_sock = (Ret SW_OK, b', s') \<and>
      calls s' = [(SysPeek, 40), (SysReadv, - 1), (SysPeek, 40), (SysReadv, 64), (SysPeek, - 1)] \<and>
      map_option str_length (packet_pool b' 5) = Some 24) \<and>
   SW_OK \<noteq> SW_ERR"
  by (simp add: read_def read_loop.simps read_step_def read_chunk_def finish_chunk_def
      prepare_packet_def get_packet_buffer_def make_string_def recv_peek_def readv_def
      stream_take_def next_fault_def logcall_def reset_sock_def sock0_def bus0_def
      begin_chunk_def head0_def is_chunked_def is_begin_def is_end_def size_t_sub_def
      SW_EVENT_DATA_CHUNK_def SW_EVENT_DATA_BEGIN_def SW_EVENT_DATA_END_def
      SW_ERR_def SW_OK_def sizeof_DataHead_def Let_def)

section \<open>A failing allocation\<close>

text \<open>
  Claim C9. Let the header \<open>h\<close> of a chunk carry BEGIN, let the pool have no entry for
  its message id, and let the allocator refuse the request for \<open>len h\<close> bytes. Then
  \<open>get_packet_buffer\<close>, called on the buffer that holds \<open>h\<close>, reports the failure and
  returns no pool: nothing is inserted. A \<open>read\<close> that meets such a chunk ends with the
  failure and with the pool it started from.
\<close>

theorem get_packet_buffer_alloc_failure:
  assumes "quiet 1 s" and "rxq s = encode_head h @ rest"
    and "flags h AND SW_EVENT_DATA_CHUNK \<noteq> 0" and "flags h AND SW_EVENT_DATA_BEGIN \<noteq> 0"
    and "packet_pool b (msg_id h) = None"
    and "\<not> allocator b (unat (len h))"
  shows "get_packet_buffer (b\<lparr>buffer := (buffer b)\<lparr>info := h\<rparr>\<rparr>) = Inl bad_alloc \<and>
         (\<exists>b' s'. read maxc b s = (Throw bad_alloc, b', s') \<and> packet_pool b' = packet_pool b)"
proof -
  have q: "quiet (Suc 0) s"
    using assms(1) by simp
  from peek_header [OF q assms(2)] obtain s1 where
    s1: "recv_peek sizeof_DataHead s = (Got (encode_head h), s1)"
    by blast
  have g: "get_packet_buffer (b\<lparr>buffer := (buffer b)\<lparr>info := h\<rparr>\<rparr>) = Inl bad_alloc"
    using assms(3-) by (simp add: get_packet_buffer_def is_begin_def make_string_def)
  show ?thesis
    using g s1 assms(3)
    by (simp add: read_def read_loop.simps [of maxc 0 b s] read_step_def is_chunked_def)
qed

theorem get_packet_buffer_alloc_failure_witness:
  "get_packet_buffer
     ((bus0 64)\<lparr>allocator := (\<lambda>n. False), buffer := (buffer (bus0 64))\<lparr>info := begin_chunk\<rparr>\<rparr>) =
     Inl bad_alloc \<and>
   (\<exists>b' s'. read 32 ((bus0 64)\<lparr>allocator := (\<lambda>n. False)\<rparr>)
              (sock0 (encode_head begin_chunk @ replicate 24 1)) = (Throw bad_alloc, b', s') \<and>
      packet_pool b' = Map.empty)"
  using get_packet_buffer_alloc_failure
    [of "sock0 (encode_head begin_chunk @ replicate 24 1)" begin_chunk "replicate 24 1"
      "(bus0 64)\<lparr>allocator := (\<lambda>n. False)\<rparr>" 32]
  by (simp add: quiet_def sock0_def bus0_def begin_chunk_def head0_def
      SW_EVENT_DATA_CHUNK_def SW_EVENT_DATA_BEGIN_def)

section \<open>Passing a task in process\<close>

text \<open>
  Claim C10, as amended. For a task with \<open>info.len > 0\<close>, \<open>get_packet\<close> after \<open>pass\<close>
  returns the length \<open>info.len\<close> and the very pointer \<open>data\<close> of the task. For a task
  with \<open>info.len = 0\<close> whose flags carry neither DATA_PTR nor DATA_OBJ_PTR, \<open>pass\<close>
  copies the header unchanged and \<open>get_packet\<close> reports the inline region with length 0.
  (The claim has the second part for every task with \<open>info.len = 0\<close>.)
\<close>

theorem pass_get_packet:
  "(len (info task) > 0 \<longrightarrow>
      get_packet (pass task b) =
        Some \<lparr>pkt_length = unat (len (info task)), pkt_data = data task\<rparr>) \<and>
   (len (info task) = 0 \<and> flags (info task) AND SW_EVENT_DATA_PTR = 0 \<and>
    flags (info task) AND SW_EVENT_DATA_OBJ_PTR = 0 \<longrightarrow>
      info (buffer (pass task b)) = info task \<and>
      get_packet (pass task b) = Some \<lparr>pkt_length = 0, pkt_data = InlineData\<rparr>)"
  by (auto simp: pass_def get_packet_def Let_def set_len_def set_flags_def SW_EVENT_DATA_PTR_def)

definition task3 :: SendData where
  "task3 = \<lparr>info = head0\<lparr>len := 3, type := 7, fd := 42\<rparr>, data = UserMem 100\<rparr>"

definition task_empty :: SendData where
  "task_empty = \<lparr>info = head0\<lparr>type := 7\<rparr>, data = Nullptr\<rparr>"

definition task_empty_ptr :: SendData where
  "task_empty_ptr = \<lparr>info = head0\<lparr>flags := SW_EVENT_DATA_PTR\<rparr>, data = Nullptr\<rparr>"

theorem pass_get_packet_witness:
  "get_packet (pass task3 (bus0 64)) = Some \<lparr>pkt_length = 3, pkt_data = UserMem 100\<rparr> \<and>
   info (buffer (pass task_empty (bus0 64))) = info task_empty \<and>
   get_packet (pass task_empty (bus0 64)) = Some \<lparr>pkt_length = 0, pkt_data = InlineData\<rparr>"
  using pass_get_packet [of task3 "bus0 64"] pass_get_packet [of task_empty "bus0 64"]
  by (simp add: task3_def task_empty_def head0_def)

text \<open>
  Claim C10 as stated fails for a task with \<open>info.len = 0\<close> whose flags carry DATA_PTR:
  \<open>get_packet\<close> reads the inline region as a \<open>PacketPtr\<close> and returns the one that
  the \<open>pass\<close> before left there.
\<close>

theorem pass_empty_counterexample:
  "len (info task_empty_ptr) = 0 \<and>
   get_packet (pass task_empty_ptr (pass task3 (bus0 64))) =
     Some \<lparr>pkt_length = 3, pkt_data = UserMem 100\<rparr>"
  by (simp add: pass_def get_packet_def Let_def set_len_def set_flags_def task3_def
      task_empty_ptr_def head0_def bus0_def SW_EVENT_DATA_PTR_def)

section \<open>The writer falls back to smaller chunks\<close>

lemma send_fn_fail:
  "script sock = Some e # es \<Longrightarrow>
     send_fn iov sock = (Failed e, sock\<lparr>script := es, calls := calls sock @ [(SysWritev, - 1)]\<rparr>)"
  by (simp add: send_fn_def next_fault_def logcall_def)

lemma set_flags_set_flags [simp]: "set_flags f (set_flags g r) = set_flags f r"
  by (simp add: set_flags_def)

lemma flags_set_flags [simp]: "flags (info (set_flags f r)) = f"
  by (simp add: set_flags_def)

lemma set_flags_same: "flags (info r) = f \<Longrightarrow> set_flags f r = r"
  by (simp add: set_flags_def)

lemma clear_after_set: "(f OR m) AND NOT m = f AND NOT (m :: 8 word)"
  by (simp add: bit_eq_iff bit_simps) blast

lemma clear_absent:
  assumes "f AND m = 0"
  shows "f AND NOT m = (f :: 8 word)"
proof (rule bit_word_eqI)
  fix n
  assume "n < LENGTH(8)"
  moreover have "bit (f AND m) n = False"
    using assms by simp
  ultimately show "bit (f AND NOT m) n = bit f n"
    by (auto simp: bit_simps)
qed

text \<open>
  Claim C7. Let the coming \<open>writev\<close> fail with errno \<open>e\<close>. In the loop of the chunked
  path: when \<open>e\<close> is classified REDUCE_SIZE and \<open>max_length\<close> is above
  \<open>SW_IPC_BUFFER_SIZE\<close>, the loop goes on with \<open>max_length\<close> lowered to that floor,
  the END flag cleared, and the same \<open>l_payload\<close> and \<open>offset\<close> (the same slice is sent
  again, nothing has reached the socket); otherwise \<open>write\<close> returns \<open>false\<close>. In the
  single-record path (lines 261 to 277) the same test sends the payload through the
  chunked path with \<open>max_length\<close> at the floor, or makes \<open>write\<close> return \<open>false\<close>.
\<close>

theorem write_reduce_size:
  assumes "script sock = Some e # es"
  shows
    "(0 < l \<longrightarrow>
        write_loop ipc payload m l off resp sock =
          (if catch_write_pipe_error e = SW_REDUCE_SIZE \<and> ipc < m then
             write_loop ipc payload ipc l off
               (set_flags (flags (info resp) AND NOT SW_EVENT_DATA_END) resp)
               (sock\<lparr>script := es, calls := calls sock @ [(SysWritev, - 1)]\<rparr>)
           else
             Some (False,
                   (if m < l then resp
                    else set_flags (flags (info resp) OR SW_EVENT_DATA_END) resp),
                   sock\<lparr>script := es, calls := calls sock @ [(SysWritev, - 1)]\<rparr>))) \<and>
     (0 < unat (len (info resp)) \<and> data resp \<noteq> Nullptr \<and> \<not> always_chunked_transfer b \<and>
      unat (len (info resp)) \<le> max_length_of b \<longrightarrow>
        write ipc mem new_id b sock resp =
          (if catch_write_pipe_error e = SW_REDUCE_SIZE \<and> ipc < max_length_of b then
             write_chunked ipc (payload_bytes mem (data resp)) ipc (unat (len (info resp)))
               (set_flags 0 (set_msg_id new_id resp))
               (sock\<lparr>script := es, calls := calls sock @ [(SysWritev, - 1)]\<rparr>)
           else
             Some (False, set_flags 0 (set_msg_id new_id resp),
                   sock\<lparr>script := es, calls := calls sock @ [(SysWritev, - 1)]\<rparr>)))"
proof (intro conjI impI)
  assume l: "0 < l"
  show "write_loop ipc payload m l off resp sock =
          (if catch_write_pipe_error e = SW_REDUCE_SIZE \<and> ipc < m then
             write_loop ipc payload ipc l off
               (set_flags (flags (info resp) AND NOT SW_EVENT_DATA_END) resp)
               (sock\<lparr>script := es, calls := calls sock @ [(SysWritev, - 1)]\<rparr>)
           else
             Some (False,
                   (if m < l then resp
                    else set_flags (flags (info resp) OR SW_EVENT_DATA_END) resp),
                   sock\<lparr>script := es, calls := calls sock @ [(SysWritev, - 1)]\<rparr>))"
    using l
    by (subst write_loop.simps)
       (auto simp: send_fn_fail [OF assms] Let_def clear_after_set clear_absent set_flags_same)
next
  assume a: "0 < unat (len (info resp)) \<and> data resp \<noteq> Nullptr \<and> \<not> always_chunked_transfer b \<and>
      unat (len (info resp)) \<le> max_length_of b"
  have [simp]: "41 + uint (len (info resp)) \<noteq> 0"
    using uint_ge_0 [of "len (info resp)"] by linarith
  have [simp]: "set_len (len (info resp)) (set_flags 0 (set_msg_id new_id resp)) = set_flags 0 (set_msg_id new_id resp)"
    by (simp add: set_len_def set_flags_def set_msg_id_def)
  show "write ipc mem new_id b sock resp =
          (if catch_write_pipe_error e = SW_REDUCE_SIZE \<and> ipc < max_length_of b then
             write_chunked ipc (payload_bytes mem (data resp)) ipc (unat (len (info resp)))
               (set_flags 0 (set_msg_id new_id resp))
               (sock\<lparr>script := es, calls := calls sock @ [(SysWritev, - 1)]\<rparr>)
           else
             Some (False, set_flags 0 (set_msg_id new_id resp),
                   sock\<lparr>script := es, calls := calls sock @ [(SysWritev, - 1)]\<rparr>))"
    using a
    by (auto simp: write_def Let_def send_fn_fail [OF assms] sizeof_DataHead_def)
qed

text \<open>
  Scenario S5 of the spec, scaled down: 20 bytes, a capacity of 24 bytes per chunk, a floor
  of 8, and a first \<open>writev\<close> that fails with ENOBUFS. The writer goes on with chunks
  of 8 bytes and sends three records, BEGIN on the first and END on the last.
\<close>

definition payload20 :: "byte list" where
  "payload20 = [1, 2, 3, 4, 5, 6, 7, 8, 9, 10, 11, 12, 13, 14, 15, 16, 17, 18, 19, 20]"

definition task20 :: SendData where
  "task20 = \<lparr>info = head0\<lparr>len := 20, type := 7, fd := 42\<rparr>, data = UserMem 100\<rparr>"

definition mem20 :: memory where
  "mem20 a = (if a = 100 then payload20 else [])"

definition nobufs_sock :: stream where
  "nobufs_sock = (sock0 [])\<lparr>script := [Some ENOBUFS]\<rparr>"

definition sent20 :: DataHead where
  "sent20 = head0\<lparr>len := 20, type := 7, fd := 42, msg_id := 1\<rparr>"

lemma max_length_of_bus0_64 [simp]: "max_length_of (bus0 64) = 24"
  by (simp add: max_length_of_def bus0_def size_t_sub_def sizeof_DataHead_def)

theorem write_reduce_size_witness:
  "write 8 mem20 1 (bus0 64) nobufs_sock task20 =
     write_chunked 8 payload20 8 20 (set_flags 0 (set_msg_id 1 task20))
       (nobufs_sock\<lparr>script := [], calls := [(SysWritev, - 1)]\<rparr>) \<and>
   (\<exists>resp' sock'. write 8 mem20 1 (bus0 64) nobufs_sock task20 = Some (True, resp', sock') \<and>
      tx sock' =
        [encode_head (sent20\<lparr>flags := SW_EVENT_DATA_CHUNK OR SW_EVENT_DATA_BEGIN\<rparr>) @ [1, 2, 3, 4, 5, 6, 7, 8],
         encode_head (sent20\<lparr>flags := SW_EVENT_DATA_CHUNK\<rparr>) @ [9, 10, 11, 12, 13, 14, 15, 16],
         encode_head (sent20\<lparr>flags := SW_EVENT_DATA_CHUNK OR SW_EVENT_DATA_END\<rparr>) @ [17, 18, 19, 20]])"
proof -
  have w: "write 8 mem20 1 (bus0 64) nobufs_sock task20 =
     write_chunked 8 payload20 8 20 (set_flags 0 (set_msg_id 1 task20))
       (nobufs_sock\<lparr>script := [], calls := [(SysWritev, - 1)]\<rparr>)"
    using write_reduce_size [where sock = nobufs_sock and e = ENOBUFS and es = "[]" and ipc = 8
        and resp = task20 and b = "bus0 64" and mem = mem20 and new_id = 1 and l = 0]
    by (simp add: nobufs_sock_def sock0_def task20_def head0_def mem20_def bus0_def [of 64, THEN arg_cong [where f = always_chunked_transfer]])
  show ?thesis
    unfolding w
    by (simp add: write_chunked_def write_loop.simps send_fn_def next_fault_def logcall_def
        nobufs_sock_def sock0_def task20_def head0_def sent20_def payload20_def set_flags_def set_len_def
        set_msg_id_def SW_EVENT_DATA_CHUNK_def SW_EVENT_DATA_BEGIN_def SW_EVENT_DATA_END_def Let_def)
qed

section \<open>The records of a chunked transfer\<close>

text \<open>
  The records of a chunked transfer in the words of the spec (section 6): every record
  is the header followed by a slice of the payload; the header carries CHUNK, the first
  one BEGIN and the last one END, and nothing else differs between the headers.
\<close>

definition frame :: "DataHead \<Rightarrow> 8 word \<Rightarrow> byte list \<Rightarrow> byte list" where
  "frame h f sl = encode_head (h\<lparr>flags := f\<rparr>) @ sl"

definition head_flags :: "bool \<Rightarrow> 8 word" where
  "head_flags first = SW_EVENT_DATA_CHUNK OR (if first then SW_EVENT_DATA_BEGIN else 0)"

fun chunk_series :: "DataHead \<Rightarrow> bool \<Rightarrow> byte list list \<Rightarrow> byte list list" where
  "chunk_series h first [] = []"
| "chunk_series h first [sl] = [frame h (head_flags first OR SW_EVENT_DATA_END) sl]"
| "chunk_series h first (sl # sl' # sls) =
     frame h (head_flags first) sl # chunk_series h False (sl' # sls)"

lemma frame_flags [simp]: "frame (h\<lparr>flags := g\<rparr>) f sl = frame h f sl"
  by (simp add: frame_def)

lemma chunk_series_flags [simp]: "chunk_series (h\<lparr>flags := g\<rparr>) first sls = chunk_series h first sls"
  by (induction h first sls rule: chunk_series.induct) simp_all

lemma length_chunk_series [simp]: "length (chunk_series h first sls) = length sls"
  by (induction h first sls rule: chunk_series.induct) simp_all

lemma chunk_series_nth:
  "i < length sls \<Longrightarrow>
     chunk_series h first sls ! i =
       frame h (if i = length sls - 1 then head_flags (first \<and> i = 0) OR SW_EVENT_DATA_END
                else head_flags (first \<and> i = 0)) (sls ! i)"
proof (induction h first sls arbitrary: i rule: chunk_series.induct)
  case (1 h first)
  then show ?case by simp
next
  case (2 h first sl)
  then show ?case by simp
next
  case (3 h first sl sl' sls)
  then show ?case
    by (cases i) simp_all
qed

lemma send_fn_ok:
  "script sock = [] \<Longrightarrow>
     send_fn iov sock =
       (Got (concat iov),
        sock\<lparr>tx := tx sock @ [concat iov],
             calls := calls sock @ [(SysWritev, int (length (concat iov)))]\<rparr>)"
  by (simp add: send_fn_def next_fault_def logcall_def)

lemma send_fn_tx:
  "send_fn iov sock = (r, sock1) \<Longrightarrow>
     tx sock1 = (case r of Failed e \<Rightarrow> tx sock | Got bs \<Rightarrow> tx sock @ [concat iov])"
  by (auto simp: send_fn_def next_fault_def logcall_def split: list.splits option.splits)

lemma info_set_flags [simp]: "info (set_flags f r) = (info r)\<lparr>flags := f\<rparr>"
  by (simp add: set_flags_def)

lemma head_flags_bits:
  "head_flags first AND SW_EVENT_DATA_END = 0"
  "(head_flags first OR SW_EVENT_DATA_END) AND SW_EVENT_DATA_END \<noteq> 0"
  "(head_flags first AND SW_EVENT_DATA_BEGIN \<noteq> 0) = first"
  "((head_flags first OR SW_EVENT_DATA_END) AND SW_EVENT_DATA_BEGIN \<noteq> 0) = first"
  "head_flags first AND NOT SW_EVENT_DATA_BEGIN = head_flags False"
  "(head_flags first OR SW_EVENT_DATA_END) AND NOT SW_EVENT_DATA_BEGIN = head_flags False OR SW_EVENT_DATA_END"
  "(head_flags first OR SW_EVENT_DATA_END) AND NOT SW_EVENT_DATA_END = head_flags first"
  by (cases first; simp add: head_flags_def SW_EVENT_DATA_CHUNK_def SW_EVENT_DATA_BEGIN_def
      SW_EVENT_DATA_END_def)+

lemma chunk_series_cong:
  assumes "h'\<lparr>flags := 0\<rparr> = h\<lparr>flags := 0\<rparr>"
  shows "chunk_series h' first sls = chunk_series h first sls"
  using chunk_series_flags [where h = h' and g = 0 and first = first and sls = sls]
    chunk_series_flags [where h = h and g = 0 and first = first and sls = sls] assms
  by simp

definition series_post ::
  "byte list \<Rightarrow> nat \<Rightarrow> nat \<Rightarrow> SendData \<Rightarrow> 'q Socket \<Rightarrow> bool \<times> SendData \<times> 'q Socket \<Rightarrow>
   bool \<Rightarrow> bool" where
  "series_post payload l off resp sock y first =
     (fst y \<longrightarrow> (0 < l \<longrightarrow> flags (info resp) = head_flags first) \<longrightarrow>
        (\<exists>slices. tx (snd (snd y)) = tx sock @ chunk_series (info resp) first slices \<and>
           concat slices = take l (drop off payload) \<and> (slices = []) = (l = 0)))"

lemma write_loop_series:
  assumes "write_loop ipc payload m l off resp sock = Some y"
  shows "\<forall>first. series_post payload l off resp sock y first"
proof (rule write_loop.raw_induct
    [where P = "\<lambda>ipc payload m l off resp sock y. \<forall>first. series_post payload l off resp sock y first",
      OF _ assms])
  fix f :: "nat \<Rightarrow> byte list \<Rightarrow> nat \<Rightarrow> nat \<Rightarrow> nat \<Rightarrow> SendData \<Rightarrow> 'a Socket \<Rightarrow> (bool \<times> SendData \<times> 'a Socket) option"
  fix ipc payload m l off resp sock y
  assume IH: "\<And>ipc payload m l off resp sock y.
      f ipc payload m l off resp sock = Some y \<Longrightarrow> \<forall>first. series_post payload l off resp sock y first"
  assume body: "(if 0 < l
      then let copy_n = if m < l then m else l;
               resp1 = if m < l then resp
                 else set_flags (flags (info resp) OR SW_EVENT_DATA_END) resp
           in case send_fn [encode_head (info resp1), take copy_n (drop off payload)] sock of
              (Failed e, sock1) \<Rightarrow>
                if catch_write_pipe_error e = SW_REDUCE_SIZE \<and> ipc < m
                then f ipc payload ipc l off
                      (if flags (info resp1) AND SW_EVENT_DATA_END \<noteq> 0
                       then set_flags (flags (info resp1) AND NOT SW_EVENT_DATA_END) resp1
                       else resp1)
                      sock1
                else Some (False, resp1, sock1)
              | (Got x, sock1) \<Rightarrow>
                  f ipc payload m (l - copy_n) (off + copy_n)
                   (if flags (info resp1) AND SW_EVENT_DATA_BEGIN \<noteq> 0
                    then set_flags (flags (info resp1) AND NOT SW_EVENT_DATA_BEGIN) resp1
                    else resp1)
                   sock1
      else Some (True, resp, sock)) = Some y"
  show "\<forall>first. series_post payload l off resp sock y first"
    unfolding series_post_def
  proof (intro allI impI)
    fix first
    assume "fst y"
      and fl: "0 < l \<longrightarrow> flags (info resp) = head_flags first"
    then obtain resp' sock' where y: "y = (True, resp', sock')"
      by (cases y) auto
    have sy: "snd (snd y) = sock'"
      by (simp add: y)
    have "\<exists>slices. tx sock' = tx sock @ chunk_series (info resp) first slices \<and>
              concat slices = take l (drop off payload) \<and> (slices = []) = (l = 0)"
    proof (cases "0 < l")
      case False
      with body y show ?thesis
        by (intro exI [of _ "[]"]) simp
    next
      case l: True
      then have F: "flags (info resp) = head_flags first"
        using fl by simp
      define copy_n where "copy_n = (if m < l then m else l)"
      define resp1 where
        "resp1 = (if m < l then resp else set_flags (flags (info resp) OR SW_EVENT_DATA_END) resp)"
      define sl where "sl = take copy_n (drop off payload)"
      obtain r sock1 where snd: "send_fn [encode_head (info resp1), sl] sock = (r, sock1)"
        by (cases "send_fn [encode_head (info resp1), sl] sock") auto
      note tx1 = send_fn_tx [OF snd]
      have body': "(case r of
              Failed e \<Rightarrow>
                if catch_write_pipe_error e = SW_REDUCE_SIZE \<and> ipc < m
                then f ipc payload ipc l off
                      (if flags (info resp1) AND SW_EVENT_DATA_END \<noteq> 0
                       then set_flags (flags (info resp1) AND NOT SW_EVENT_DATA_END) resp1
                       else resp1)
                      sock1
                else Some (False, resp1, sock1)
              | Got x \<Rightarrow>
                  f ipc payload m (l - copy_n) (off + copy_n)
                   (if flags (info resp1) AND SW_EVENT_DATA_BEGIN \<noteq> 0
                    then set_flags (flags (info resp1) AND NOT SW_EVENT_DATA_BEGIN) resp1
                    else resp1)
                   sock1) = Some y"
        using body l snd unfolding copy_n_def resp1_def sl_def Let_def
        by (simp split: io.splits)
      have same: "(info resp)\<lparr>flags := head_flags first\<rparr> = info resp"
        by (simp add: F [symmetric])
      show ?thesis
      proof (cases r)
        case (Failed e)
        show ?thesis
        proof (cases "catch_write_pipe_error e = SW_REDUCE_SIZE \<and> ipc < m")
          case True
          define resp2 where "resp2 = (if flags (info resp1) AND SW_EVENT_DATA_END \<noteq> 0
                    then set_flags (flags (info resp1) AND NOT SW_EVENT_DATA_END) resp1
                    else resp1)"
          have call: "f ipc payload ipc l off resp2 sock1 = Some y"
            using body' Failed True by (simp add: resp2_def)
          have f2: "flags (info resp2) = head_flags first"
            using F by (simp add: resp2_def resp1_def head_flags_bits)
          have "(info resp2)\<lparr>flags := 0\<rparr> = (info resp)\<lparr>flags := 0\<rparr>"
            by (simp add: resp2_def resp1_def)
          then have i2: "chunk_series (info resp2) first = chunk_series (info resp) first"
            by (intro ext chunk_series_cong)
          from IH [OF call, THEN spec, of first] f2 l obtain slices where
            "tx sock' = tx sock1 @ chunk_series (info resp2) first slices"
            "concat slices = take l (drop off payload)" "(slices = []) = (l = 0)"
            by (auto simp: series_post_def y)
          then show ?thesis
            using i2 tx1 Failed by auto
        next
          case False
          with body' Failed y show ?thesis
            by simp
        qed
      next
        case (Got bs)
        define resp2 where "resp2 = (if flags (info resp1) AND SW_EVENT_DATA_BEGIN \<noteq> 0
                    then set_flags (flags (info resp1) AND NOT SW_EVENT_DATA_BEGIN) resp1
                    else resp1)"
        have call: "f ipc payload m (l - copy_n) (off + copy_n) resp2 sock1 = Some y"
          using body' Got by (simp add: resp2_def)
        have "(info resp2)\<lparr>flags := 0\<rparr> = (info resp)\<lparr>flags := 0\<rparr>"
          by (simp add: resp2_def resp1_def)
        then have i2: "chunk_series (info resp2) False = chunk_series (info resp) False"
          by (intro ext chunk_series_cong)
        have tx1': "tx sock1 = tx sock @ [encode_head (info resp1) @ sl]"
          using tx1 Got by simp
        from IH [OF call, THEN spec, of False]
        have ih: "(0 < l - copy_n \<longrightarrow> flags (info resp2) = head_flags False) \<longrightarrow>
          (\<exists>slices. tx sock' = tx sock1 @ chunk_series (info resp2) False slices \<and>
            concat slices = take (l - copy_n) (drop (off + copy_n) payload) \<and>
            (slices = []) = (l - copy_n = 0))"
          by (simp add: series_post_def y)
        show ?thesis
        proof (cases "m < l")
          case True
          then have c: "copy_n = m" "resp1 = resp"
            by (simp_all add: copy_n_def resp1_def)
          have f2: "flags (info resp2) = head_flags False"
            using F c by (simp add: resp2_def head_flags_bits)
          from ih f2 have "\<exists>slices. tx sock' = tx sock1 @ chunk_series (info resp2) False slices \<and>
              concat slices = take (l - copy_n) (drop (off + copy_n) payload) \<and>
              (slices = []) = (l - copy_n = 0)"
            by simp
          then obtain slices where
            s: "tx sock' = tx sock1 @ chunk_series (info resp2) False slices"
              "concat slices = take (l - copy_n) (drop (off + copy_n) payload)"
              "(slices = []) = (l - copy_n = 0)"
            by (elim exE conjE)
          from s(3) True c obtain sl' sls where sls: "slices = sl' # sls"
            by (cases slices) auto
          have fr: "encode_head (info resp1) @ sl = frame (info resp) (head_flags first) sl"
            using c same by (simp add: frame_def)
          have "take l (drop off payload) =
              take m (drop off payload) @ take (l - m) (drop m (drop off payload))"
            using True take_add [of m "l - m" "drop off payload"] by simp
          then have cat: "sl @ take (l - copy_n) (drop (off + copy_n) payload) = take l (drop off payload)"
            using c by (simp add: sl_def add.commute)
          show ?thesis
            using s sls tx1' fr cat i2
            by (intro exI [of _ "sl # slices"]) simp
        next
          case False
          then have c: "copy_n = l"
            "resp1 = set_flags (flags (info resp) OR SW_EVENT_DATA_END) resp"
            by (simp_all add: copy_n_def resp1_def)
          from ih c have "\<exists>slices. tx sock' = tx sock1 @ chunk_series (info resp2) False slices \<and>
              (slices = []) = (l - copy_n = 0)"
            by simp
          then obtain slices where
            s: "tx sock' = tx sock1 @ chunk_series (info resp2) False slices"
              "(slices = []) = (l - copy_n = 0)"
            by (elim exE conjE)
          then have e: "slices = []"
            using c by simp
          have fr: "encode_head (info resp1) @ sl =
              frame (info resp) (head_flags first OR SW_EVENT_DATA_END) sl"
            using F c by (simp add: frame_def)
          show ?thesis
            using s e tx1' fr c l
            by (intro exI [of _ "[sl]"]) (simp add: sl_def)
        qed
      qed
    qed
    then show "\<exists>slices. tx (snd (snd y)) = tx sock @ chunk_series (info resp) first slices \<and>
              concat slices = take l (drop off payload) \<and> (slices = []) = (l = 0)"
      unfolding sy .
  qed
qed

lemma head_flags_chunk:
  "head_flags first AND SW_EVENT_DATA_CHUNK \<noteq> 0"
  "(head_flags first OR SW_EVENT_DATA_END) AND SW_EVENT_DATA_CHUNK \<noteq> 0"
  by (cases first; simp add: head_flags_def SW_EVENT_DATA_CHUNK_def SW_EVENT_DATA_BEGIN_def
      SW_EVENT_DATA_END_def)+

lemma flag_nonzero [simp]:
  "SW_EVENT_DATA_END \<noteq> 0" "SW_EVENT_DATA_CHUNK \<noteq> 0" "SW_EVENT_DATA_BEGIN \<noteq> 0"
  by (simp_all add: SW_EVENT_DATA_END_def SW_EVENT_DATA_CHUNK_def SW_EVENT_DATA_BEGIN_def)

lemma decode_frame:
  "decode_head (take 40 (frame h f sl)) = h\<lparr>flags := f\<rparr>" "drop 40 (frame h f sl) = sl"
  by (simp_all add: frame_def)

text \<open>
  Claim C6. When the chunked path of \<open>write\<close> returns \<open>true\<close> for a payload of
  \<open>l > 0\<close> bytes, the records that it has added to the socket are a header and a slice
  each; the slices, in order, make up the payload; every header carries the message id of
  the \<open>SendData\<close>, \<open>len = l\<close> and CHUNK, and differs from it in nothing but \<open>len\<close>
  and \<open>flags\<close>; BEGIN is set on the first record only and END on the last record only
  (so both are set on one record only when it is the only one); the bytes of a record
  after its 40-byte header are its slice.
\<close>

theorem write_chunked_series:
  assumes "write_chunked ipc payload m l resp sock = Some (True, resp', sock')" and "0 < l"
  shows "\<exists>slices. slices \<noteq> [] \<and> concat slices = take l payload \<and>
           length (tx sock') = length (tx sock) + length slices \<and>
           take (length (tx sock)) (tx sock') = tx sock \<and>
           (\<forall>i < length slices.
              let r = tx sock' ! (length (tx sock) + i); h = decode_head (take 40 r) in
                drop 40 r = slices ! i \<and>
                msg_id h = msg_id (info resp) \<and> len h = of_nat l \<and>
                h\<lparr>flags := 0\<rparr> = (info resp)\<lparr>len := of_nat l, flags := 0\<rparr> \<and>
                flags h AND SW_EVENT_DATA_CHUNK \<noteq> 0 \<and>
                (flags h AND SW_EVENT_DATA_BEGIN \<noteq> 0) = (i = 0) \<and>
                (flags h AND SW_EVENT_DATA_END \<noteq> 0) = (i = length slices - 1))"
proof -
  define resp0 where
    "resp0 = set_len (of_nat l) (set_flags (SW_EVENT_DATA_CHUNK OR SW_EVENT_DATA_BEGIN) resp)"
  have run: "write_loop ipc payload m l 0 resp0 sock = Some (True, resp', sock')"
    using assms(1) by (simp add: write_chunked_def resp0_def)
  have fl: "flags (info resp0) = head_flags True"
    by (simp add: resp0_def set_len_def head_flags_def)
  from write_loop_series [OF run, THEN spec, of True] fl assms(2) obtain slices where
    s: "tx sock' = tx sock @ chunk_series (info resp0) True slices"
      "concat slices = take l payload" "slices \<noteq> []"
    by (auto simp: series_post_def)
  have i0: "info resp0 = (info resp)\<lparr>len := of_nat l, flags := head_flags True\<rparr>"
    by (simp add: resp0_def set_len_def set_flags_def head_flags_def)
  have each: "let r = tx sock' ! (length (tx sock) + i); h = decode_head (take 40 r) in
                drop 40 r = slices ! i \<and>
                msg_id h = msg_id (info resp) \<and> len h = of_nat l \<and>
                h\<lparr>flags := 0\<rparr> = (info resp)\<lparr>len := of_nat l, flags := 0\<rparr> \<and>
                flags h AND SW_EVENT_DATA_CHUNK \<noteq> 0 \<and>
                (flags h AND SW_EVENT_DATA_BEGIN \<noteq> 0) = (i = 0) \<and>
                (flags h AND SW_EVENT_DATA_END \<noteq> 0) = (i = length slices - 1)"
    if "i < length slices" for i
  proof -
    have r: "tx sock' ! (length (tx sock) + i) =
        frame (info resp0)
          (if i = length slices - 1 then head_flags (i = 0) OR SW_EVENT_DATA_END
           else head_flags (i = 0)) (slices ! i)"
      using that by (simp add: s(1) chunk_series_nth)
    show ?thesis
      unfolding r Let_def decode_frame
      by (simp add: i0 head_flags_bits head_flags_chunk)
  qed
  show ?thesis
    using s each by (intro exI [of _ slices]) simp
qed

theorem write_chunked_series_witness:
  "\<exists>resp' sock'.
     write_chunked 8 payload20 8 20 task20 (sock0 [] :: stream) = Some (True, resp', sock') \<and>
     (\<exists>slices. slices \<noteq> [] \<and> concat slices = payload20 \<and>
        length (tx sock') = length slices \<and>
        (\<forall>i < length slices.
           let r = tx sock' ! i; h = decode_head (take 40 r) in
             drop 40 r = slices ! i \<and>
             msg_id h = 0 \<and> len h = 20 \<and>
             h\<lparr>flags := 0\<rparr> = (info task20)\<lparr>len := 20, flags := 0\<rparr> \<and>
             flags h AND SW_EVENT_DATA_CHUNK \<noteq> 0 \<and>
             (flags h AND SW_EVENT_DATA_BEGIN \<noteq> 0) = (i = 0) \<and>
             (flags h AND SW_EVENT_DATA_END \<noteq> 0) = (i = length slices - 1)))"
proof -
  have "\<exists>resp' sock'.
      write_chunked 8 payload20 8 20 task20 (sock0 [] :: stream) = Some (True, resp', sock')"
    by (simp add: write_chunked_def write_loop.simps send_fn_def next_fault_def logcall_def
        sock0_def task20_def head0_def payload20_def set_flags_def set_len_def
        SW_EVENT_DATA_CHUNK_def SW_EVENT_DATA_BEGIN_def SW_EVENT_DATA_END_def Let_def)
  then obtain resp' sock' where
    ev: "write_chunked 8 payload20 8 20 task20 (sock0 [] :: stream) = Some (True, resp', sock')"
    by (elim exE)
  from write_chunked_series [OF ev]
  have "\<exists>slices. slices \<noteq> [] \<and> concat slices = payload20 \<and>
        length (tx sock') = length slices \<and>
        (\<forall>i < length slices.
           let r = tx sock' ! i; h = decode_head (take 40 r) in
             drop 40 r = slices ! i \<and>
             msg_id h = 0 \<and> len h = 20 \<and>
             h\<lparr>flags := 0\<rparr> = (info task20)\<lparr>len := 20, flags := 0\<rparr> \<and>
             flags h AND SW_EVENT_DATA_CHUNK \<noteq> 0 \<and>
             (flags h AND SW_EVENT_DATA_BEGIN \<noteq> 0) = (i = 0) \<and>
             (flags h AND SW_EVENT_DATA_END \<noteq> 0) = (i = length slices - 1))"
    by (simp add: sock0_def task20_def head0_def payload20_def Let_def)
  with ev show ?thesis
    by (intro exI [of _ resp'] exI [of _ sock'] conjI)
qed

section \<open>Round trip through write and read\<close>

text \<open>
  The slices of a payload under a slice capacity \<open>m\<close>: what the loop of
  \<open>MessageBus::write\<close> takes with \<open>copy_n\<close> at each turn.
\<close>

function chop :: "nat \<Rightarrow> 'a list \<Rightarrow> 'a list list" where
  "chop m xs = (if m = 0 \<or> xs = [] then [] else take m xs # chop m (drop m xs))"
  by pat_completeness auto
termination
  by (relation "measure (\<lambda>(m, xs). length xs)") auto

declare chop.simps [simp del]

lemma chop_Nil [simp]: "chop m [] = []"
  by (simp add: chop.simps)

lemma chop_eq_Nil: "(chop m xs = []) = (m = 0 \<or> xs = [])"
  by (subst chop.simps) simp

lemma concat_chop: "0 < m \<Longrightarrow> concat (chop m xs) = xs"
proof (induction m xs rule: chop.induct)
  case (1 m xs)
  then show ?case
    by (subst chop.simps) auto
qed

text \<open>
  On a socket whose calls do not fail and with a slice capacity that is not 0, the loop
  ends, returns true and has written the chunk series of what was left of the payload.
\<close>

lemma write_loop_quiet:
  assumes "script sock = []" and "0 < m"
    and "0 < l \<longrightarrow> flags (info resp) = head_flags first"
    and "off + l \<le> length payload"
  shows "\<exists>resp' sock'. write_loop ipc payload m l off resp sock = Some (True, resp', sock') \<and>
           tx sock' = tx sock @ chunk_series (info resp) first (chop m (take l (drop off payload))) \<and>
           script sock' = []"
  using assms
proof (induction l arbitrary: off resp sock first rule: less_induct)
  case (less l)
  show ?case
  proof (cases "0 < l")
    case False
    then show ?thesis
      using less.prems(1) by (subst write_loop.simps) simp
  next
    case l: True
    then have F: "flags (info resp) = head_flags first"
      using less.prems(3) by simp
    have same: "(info resp)\<lparr>flags := head_flags first\<rparr> = info resp"
      by (simp add: F [symmetric])
    define X where "X = drop off payload"
    have lenX: "l \<le> length X"
      using less.prems(4) by (simp add: X_def)
    show ?thesis
    proof (cases "m < l")
      case True
      define sock1 where "sock1 = sock\<lparr>tx := tx sock @ [encode_head (info resp) @ take m X],
        calls := calls sock @ [(SysWritev, int (length (concat [encode_head (info resp), take m X])))]\<rparr>"
      define resp2 where "resp2 = (if first then set_flags (head_flags False) resp else resp)"
      have step: "write_loop ipc payload m l off resp sock =
          write_loop ipc payload m (l - m) (off + m) resp2 sock1"
        using l True F less.prems(1)
        by (subst write_loop.simps)
           (auto simp: Let_def send_fn_ok X_def sock1_def resp2_def head_flags_bits)
      have "\<exists>resp' sock'. write_loop ipc payload m (l - m) (off + m) resp2 sock1 = Some (True, resp', sock') \<and>
           tx sock' = tx sock1 @ chunk_series (info resp2) False (chop m (take (l - m) (drop (off + m) payload))) \<and>
           script sock' = []"
        using True less.prems(1,2,4)
        using F by (intro less.IH) (auto simp: sock1_def resp2_def)
      then obtain resp' sock' where
        r: "write_loop ipc payload m (l - m) (off + m) resp2 sock1 = Some (True, resp', sock')"
          "tx sock' = tx sock1 @ chunk_series (info resp2) False (chop m (take (l - m) (drop (off + m) payload)))"
          "script sock' = []"
        by (elim exE conjE)
      have i2: "chunk_series (info resp2) False = chunk_series (info resp) False"
        by (intro ext chunk_series_cong) (simp add: resp2_def)
      have rest: "drop m (take l X) = take (l - m) (drop (off + m) payload)"
        by (simp add: X_def drop_take add.commute)
      have ne: "take (l - m) (drop (off + m) payload) \<noteq> []"
        using True less.prems(4) by simp
      then obtain sl' sls where sls: "chop m (take (l - m) (drop (off + m) payload)) = sl' # sls"
        using less.prems(2) chop_eq_Nil [of m "take (l - m) (drop (off + m) payload)"]
        by (cases "chop m (take (l - m) (drop (off + m) payload))") auto
      have tk: "take m (take l X) = take m X"
        using True by (simp add: min_def)
      have ch: "chop m (take l X) = take m X # chop m (take (l - m) (drop (off + m) payload))"
        using less.prems(2) l lenX rest tk
        by (subst chop.simps) auto
      have "tx sock' = tx sock @ chunk_series (info resp) first (chop m (take l X))"
        using r(2) i2 sls same by (simp add: ch sock1_def frame_def)
      then show ?thesis
        using r(1,3) step by (simp add: X_def)
    next
      case False
      define resp1 where "resp1 = set_flags (head_flags first OR SW_EVENT_DATA_END) resp"
      define sock1 where "sock1 = sock\<lparr>tx := tx sock @ [encode_head (info resp1) @ take l X],
        calls := calls sock @ [(SysWritev, int (length (concat [encode_head (info resp1), take l X])))]\<rparr>"
      define resp2 where "resp2 = (if first then set_flags (head_flags False OR SW_EVENT_DATA_END) resp1 else resp1)"
      have step: "write_loop ipc payload m l off resp sock = write_loop ipc payload m 0 (off + l) resp2 sock1"
        using l False F less.prems(1)
        by (subst write_loop.simps)
           (auto simp: Let_def send_fn_ok X_def sock1_def resp1_def resp2_def head_flags_bits)
      have fin: "write_loop ipc payload m 0 (off + l) resp2 sock1 = Some (True, resp2, sock1)"
        by (subst write_loop.simps) simp
      have tk: "take m (take l X) = take l X" "drop m (take l X) = []"
        using False by (simp_all add: min_def)
      have ne: "take l X \<noteq> []"
        using l lenX by auto
      have ch: "chop m (take l X) = [take l X]"
        using less.prems(2) ne tk by (subst chop.simps) auto
      show ?thesis
        using step fin less.prems(1)
        by (simp add: ch sock1_def resp1_def frame_def X_def [symmetric])
    qed
  qed
qed

text \<open>
  The records that \<open>MessageBus::write\<close> puts on a socket whose calls do not fail: a
  header alone for an empty payload, one record when the payload fits and chunked transfer
  is not forced, the chunk series otherwise.
\<close>

definition wire_of :: "bool \<Rightarrow> nat \<Rightarrow> DataHead \<Rightarrow> byte list \<Rightarrow> byte list list" where
  "wire_of chunked m h P =
     (if P = [] then [encode_head (h\<lparr>flags := 0, len := 0\<rparr>)]
      else if \<not> chunked \<and> length P \<le> m then [encode_head (h\<lparr>flags := 0\<rparr>) @ P]
      else chunk_series h True (chop m P))"

lemma write_quiet:
  assumes "script sock = []" and "0 < max_length_of b"
    and "unat (len (info resp)) = length P"
    and "take (length P) (payload_bytes mem (data resp)) = P"
  shows "\<exists>resp' sock'. write ipc mem new_id b sock resp = Some (True, resp', sock') \<and>
           tx sock' = tx sock @
             wire_of (always_chunked_transfer b) (max_length_of b)
               ((info resp)\<lparr>msg_id := new_id\<rparr>) P"
proof (cases "P = []")
  case True
  with assms(1,3) show ?thesis
    by (simp add: write_def Let_def send_fn_ok wire_of_def set_len_def set_flags_def
        set_msg_id_def sizeof_DataHead_def)
next
  case ne: False
  then have l: "0 < unat (len (info resp))"
    using assms(3) by simp
  have nn: "data resp \<noteq> Nullptr"
    using ne assms(4) by (cases "data resp") auto
  have ln: "of_nat (length P) = len (info resp)"
    using assms(3) [symmetric] by simp
  have lp: "length P \<le> length (payload_bytes mem (data resp))"
    using arg_cong [OF assms(4), of length] by simp
  show ?thesis
  proof (cases "\<not> always_chunked_transfer b \<and> length P \<le> max_length_of b")
    case True
    have "set_len (of_nat (length P)) (set_flags 0 (set_msg_id new_id resp)) =
        set_flags 0 (set_msg_id new_id resp)"
      by (simp add: set_len_def set_flags_def set_msg_id_def ln)
    moreover have "info (set_flags 0 (set_msg_id new_id resp)) =
        (info resp)\<lparr>msg_id := new_id, flags := 0\<rparr>"
      by (simp add: set_flags_def set_msg_id_def)
    ultimately show ?thesis
      using True ne l nn assms
      by (simp add: write_def Let_def send_fn_ok wire_of_def sizeof_DataHead_def
          del: info_set_flags)
  next
    case False
    define resp0 where "resp0 = set_len (of_nat (length P))
          (set_flags (SW_EVENT_DATA_CHUNK OR SW_EVENT_DATA_BEGIN) (set_msg_id new_id resp))"
    have w: "write ipc mem new_id b sock resp =
        write_loop ipc (payload_bytes mem (data resp)) (max_length_of b) (length P) 0 resp0 sock"
      using False ne l nn assms(3)
      by (auto simp: write_def Let_def write_chunked_def resp0_def)
    have fl: "0 < length P \<longrightarrow> flags (info resp0) = head_flags True"
      by (simp add: resp0_def set_len_def head_flags_def)
    from write_loop_quiet [OF assms(1,2) fl, of 0 "payload_bytes mem (data resp)" ipc] lp assms(4)
    obtain resp' sock' where
      r: "write_loop ipc (payload_bytes mem (data resp)) (max_length_of b) (length P) 0 resp0 sock =
            Some (True, resp', sock')"
        "tx sock' = tx sock @ chunk_series (info resp0) True (chop (max_length_of b) P)"
      by auto
    have "chunk_series (info resp0) True = chunk_series ((info resp)\<lparr>msg_id := new_id\<rparr>) True"
      by (intro ext chunk_series_cong)
         (simp add: resp0_def set_len_def set_flags_def set_msg_id_def ln)
    with r w False ne show ?thesis
      by (auto simp: wire_of_def)
  qed
qed

text \<open>With a slice capacity of 0 the loop sends empty slices and never returns.\<close>

lemma write_loop_stuck:
  assumes "script sock = []" and "0 < l"
  shows "write_loop ipc payload 0 l off resp sock = None"
proof (rule ccontr)
  assume "write_loop ipc payload 0 l off resp sock \<noteq> None"
  then obtain y where y: "write_loop ipc payload 0 l off resp sock = Some y"
    by auto
  have "\<not> ((0::nat) = 0 \<and> 0 < l \<and> script sock = [])"
  proof (rule write_loop.raw_induct
      [where P = "\<lambda>ipc payload m l off resp sock y. \<not> (m = 0 \<and> 0 < l \<and> script sock = [])",
        OF _ y])
    fix f :: "nat \<Rightarrow> byte list \<Rightarrow> nat \<Rightarrow> nat \<Rightarrow> nat \<Rightarrow> SendData \<Rightarrow> 'a Socket \<Rightarrow>
        (bool \<times> SendData \<times> 'a Socket) option"
    fix ipc payload m l off resp sock y
    assume IH: "\<And>ipc payload m l off resp sock y.
        f ipc payload m l off resp sock = Some y \<Longrightarrow> \<not> (m = 0 \<and> 0 < l \<and> script sock = [])"
    assume body: "(if 0 < l
      then let copy_n = if m < l then m else l;
               resp1 = if m < l then resp
                 else set_flags (flags (info resp) OR SW_EVENT_DATA_END) resp
           in case send_fn [encode_head (info resp1), take copy_n (drop off payload)] sock of
              (Failed e, sock1) \<Rightarrow>
                if catch_write_pipe_error e = SW_REDUCE_SIZE \<and> ipc < m
                then f ipc payload ipc l off
                      (if flags (info resp1) AND SW_EVENT_DATA_END \<noteq> 0
                       then set_flags (flags (info resp1) AND NOT SW_EVENT_DATA_END) resp1
                       else resp1)
                      sock1
                else Some (False, resp1, sock1)
              | (Got x, sock1) \<Rightarrow>
                  f ipc payload m (l - copy_n) (off + copy_n)
                   (if flags (info resp1) AND SW_EVENT_DATA_BEGIN \<noteq> 0
                    then set_flags (flags (info resp1) AND NOT SW_EVENT_DATA_BEGIN) resp1
                    else resp1)
                   sock1
      else Some (True, resp, sock)) = Some y"
    show "\<not> (m = 0 \<and> 0 < l \<and> script sock = [])"
    proof
      assume a: "m = 0 \<and> 0 < l \<and> script sock = []"
      then obtain resp2 sock1 where
        "f ipc payload 0 l off resp2 sock1 = Some y" "script sock1 = []"
        using body by (auto simp: Let_def send_fn_ok split: if_splits)
      with IH a show False
        by blast
    qed
  qed
  with assms show False
    by simp
qed

text \<open>
  The receiving side of the round trip: \<open>MessageBus::read\<close> is called again for as
  long as it returns \<open>SW_OK\<close>, at most \<open>n\<close> times; \<open>None\<close> when \<open>n\<close> calls
  were not enough.
\<close>

fun read_until_ready ::
  "nat \<Rightarrow> nat \<Rightarrow> MessageBus \<Rightarrow> stream \<Rightarrow> (ret \<times> MessageBus \<times> stream) option" where
  "read_until_ready 0 maxc b s = None"
| "read_until_ready (Suc n) maxc b s =
     (case read maxc b s of
        (r, b', s') \<Rightarrow> if r = Ret SW_OK then read_until_ready n maxc b' s' else Some (r, b', s'))"

text \<open>What \<open>read_until_ready\<close> does with the result of one call.\<close>

definition after_read ::
  "nat \<Rightarrow> nat \<Rightarrow> ret \<times> MessageBus \<times> stream \<Rightarrow> (ret \<times> MessageBus \<times> stream) option" where
  "after_read n maxc res =
     (case res of
        (r, b', s') \<Rightarrow> if r = Ret SW_OK then read_until_ready n maxc b' s' else Some (r, b', s'))"

lemma read_until_ready_Suc: "read_until_ready (Suc n) maxc b s = after_read n maxc (read_loop maxc 0 b s)"
  by (simp add: after_read_def read_def)

text \<open>
  The pool entry of a message \<open>P\<close> of which \<open>off\<close> bytes have arrived: storage of the
  announced size, filled up to \<open>off\<close>.
\<close>

definition reassembly :: "byte list \<Rightarrow> nat \<Rightarrow> String" where
  "reassembly P off =
     \<lparr>str = Some (take off P @ replicate (length P - off) 0), str_length = off,
      str_size = length P\<rparr>"

lemma stream_take_quiet:
  "script s = [] \<Longrightarrow> rxq s \<noteq> [] \<Longrightarrow>
     stream_take c peek n s =
       (Got (take n (rxq s)),
        (if peek then s else s\<lparr>rxq := drop n (rxq s)\<rparr>)
          \<lparr>calls := calls s @ [(c, int (length (take n (rxq s))))]\<rparr>)"
  by (simp add: stream_take_def next_fault_def logcall_def)

lemma size_t_sub_le:
  assumes "b \<le> a" and "a < 2 ^ 64"
  shows "size_t_sub a b = a - b"
proof -
  have "(2::nat) ^ 64 + a - b = (a - b) + 2 ^ 64"
    using assms(1) by simp
  moreover have "a - b < 2 ^ 64"
    using assms(2) by simp
  ultimately show ?thesis
    unfolding size_t_sub_def by (simp only: mod_add_self2 mod_less)
qed

text \<open>A record without the CHUNK flag is taken whole by one call of \<open>read\<close>.\<close>

lemma read_plain:
  assumes "script s = []" and "rxq s = encode_head h @ P @ tail"
    and "flags h AND SW_EVENT_DATA_CHUNK = 0" and "unat (len h) = length P"
  shows "\<exists>s'. read maxc b s =
           (Ret (int (40 + length P)),
            b\<lparr>buffer := \<lparr>info = h, data = store_data P (data (buffer b))\<rparr>\<rparr>, s') \<and>
           rxq s' = tail \<and> script s' = []"
proof -
  have pk: "recv_peek 40 s = (Got (encode_head h), s\<lparr>calls := calls s @ [(SysPeek, 40)]\<rparr>)"
    using assms(1,2) by (simp add: recv_peek_def stream_take_quiet)
  have rd: "stream_read (40 + length P) (s\<lparr>calls := calls s @ [(SysPeek, 40)]\<rparr>) =
      (Got (encode_head h @ P),
       s\<lparr>calls := calls s @ [(SysPeek, 40)], rxq := tail,
         calls := calls s @ [(SysPeek, 40)] @ [(SysRead, int (40 + length P))]\<rparr>)"
    using assms(1,2) by (simp add: stream_read_def stream_take_quiet)
  show ?thesis
    using assms(1,3,4)
    by (simp add: read_def read_loop.simps [of maxc 0 b s] read_step_def sizeof_DataHead_def
        pk rd is_chunked_def)
qed

lemma read_step_chunk:
  assumes q: "script s = []" and rx: "rxq s = encode_head h @ sl @ rest"
    and ch: "flags h AND SW_EVENT_DATA_CHUNK \<noteq> 0"
    and k: "msg_id h = k" and L: "unat (len h) = length P"
    and pool: "if first
               then off = 0 \<and> packet_pool b k = None \<and> allocator b (length P) \<and>
                    flags h AND SW_EVENT_DATA_BEGIN \<noteq> 0
               else packet_pool b k = Some (reassembly P off)"
    and cap: "40 \<le> buffer_size b" "buffer_size b < 2 ^ 64"
    and sl: "sl \<noteq> []" "sl = take (buffer_size b - 40) (drop off P)" "off \<le> length P"
      "length P < 2 ^ 32"
  shows "read_step maxc c b s =
           finish_chunk maxc c k (int (40 + length sl))
             (b\<lparr>buffer := (buffer b)\<lparr>info := h\<rparr>,
                packet_pool := (packet_pool b)(k \<mapsto> reassembly P (off + length sl))\<rparr>)
             (s\<lparr>rxq := rest, calls := calls s @ [(SysPeek, 40), (SysReadv, int (40 + length sl))]\<rparr>)"
proof -
  define s1 where "s1 = s\<lparr>calls := calls s @ [(SysPeek, 40)]\<rparr>"
  define b1 where "b1 = b\<lparr>buffer := (buffer b)\<lparr>info := h\<rparr>\<rparr>"
  define b2 where "b2 = b1\<lparr>packet_pool := (packet_pool b)(k \<mapsto> reassembly P off)\<rparr>"
  have pk: "recv_peek sizeof_DataHead s = (Got (encode_head h), s1)"
    using q rx by (simp add: recv_peek_def stream_take_quiet sizeof_DataHead_def s1_def)
  have gp: "get_packet_buffer b1 = Inr (Some k, b2)"
  proof (cases first)
    case True
    with pool k L show ?thesis
      by (simp add: get_packet_buffer_def b1_def b2_def is_begin_def make_string_def
          reassembly_def)
  next
    case False
    with pool k have "packet_pool b k = Some (reassembly P off)"
      by simp
    then have "(packet_pool b)(k \<mapsto> reassembly P off) = packet_pool b"
      by (simp add: fun_upd_idem)
    with False pool k show ?thesis
      by (simp add: get_packet_buffer_def b1_def b2_def)
  qed
  have len_sl: "length sl = min (buffer_size b - 40) (length P - off)"
    using sl(2) by simp
  have iov: "min (size_t_sub (buffer_size b2) sizeof_DataHead)
      (size_t_sub (unat (len (info (buffer b2)))) (str_length (reassembly P off))) = length sl"
    using cap sl(3,4) L
    by (simp add: b2_def b1_def size_t_sub_le sizeof_DataHead_def reassembly_def len_sl)
  have rv: "readv [sizeof_DataHead, length sl] s1 =
      (Got (encode_head h @ sl),
       s\<lparr>rxq := rest, calls := calls s @ [(SysPeek, 40), (SysReadv, int (40 + length sl))]\<rparr>)"
    using q rx by (simp add: readv_def stream_take_quiet sizeof_DataHead_def s1_def)
  have wr: "write_at off sl (take off P @ replicate (length P - off) 0) =
      take (off + length sl) P @ replicate (length P - (off + length sl)) 0"
  proof -
    have "take (length sl) (drop off P) = sl"
      using sl(2) by (metis append_eq_conv_conj append_take_drop_id)
    then have "take off P @ sl = take (off + length sl) P"
      by (simp add: take_add)
    moreover have "off < length P"
      using sl(1,2,3) by (cases "off = length P") auto
    ultimately show ?thesis
      by (simp add: write_at_def min_def)
  qed
  have ln: "(off + size_t_sub (length (encode_head h @ sl)) sizeof_DataHead) mod 2 ^ 64 =
      off + length sl"
  proof -
    have "off + length sl < 2 ^ 32"
      using sl(3,4) len_sl by simp
    also have "(2::nat) ^ 32 < 2 ^ 64"
      by simp
    finally show ?thesis
      using sl(4) len_sl by (simp add: size_t_sub_def sizeof_DataHead_def)
  qed
  have rc: "read_chunk maxc c k b2 s1 =
      finish_chunk maxc c k (int (40 + length sl))
        (b\<lparr>buffer := (buffer b)\<lparr>info := h\<rparr>,
           packet_pool := (packet_pool b)(k \<mapsto> reassembly P (off + length sl))\<rparr>)
        (s\<lparr>rxq := rest, calls := calls s @ [(SysPeek, 40), (SysReadv, int (40 + length sl))]\<rparr>)"
  proof -
    have pb: "packet_pool b2 k = Some (reassembly P off)"
      by (simp add: b2_def)
    have "read_chunk maxc c k b2 s1 =
        finish_chunk maxc c k (int (length (encode_head h @ sl)))
          (b2\<lparr>buffer := (buffer b2)\<lparr>info := store_head (encode_head h @ sl) (info (buffer b2))\<rparr>,
              packet_pool := (packet_pool b2)(k \<mapsto>
                (reassembly P off)
                  \<lparr>str := map_option
                     (write_at (str_length (reassembly P off)) (drop sizeof_DataHead (encode_head h @ sl)))
                     (str (reassembly P off)),
                   str_length := (str_length (reassembly P off) +
                     size_t_sub (length (encode_head h @ sl)) sizeof_DataHead) mod 2 ^ 64\<rparr>)\<rparr>)
          (s\<lparr>rxq := rest, calls := calls s @ [(SysPeek, 40), (SysReadv, int (40 + length sl))]\<rparr>)"
      unfolding read_chunk_def pb option.case Let_def iov rv prod.case io.case
      by simp
    also have "\<dots> = finish_chunk maxc c k (int (40 + length sl))
        (b\<lparr>buffer := (buffer b)\<lparr>info := h\<rparr>,
           packet_pool := (packet_pool b)(k \<mapsto> reassembly P (off + length sl))\<rparr>)
        (s\<lparr>rxq := rest, calls := calls s @ [(SysPeek, 40), (SysReadv, int (40 + length sl))]\<rparr>)"
      using wr ln
      by (simp add: b2_def b1_def reassembly_def sizeof_DataHead_def)
    finally show ?thesis .
  qed
  have ib: "info (buffer b1) = h"
    by (simp add: b1_def)
  show ?thesis
    using ch by (simp add: read_step_def pk b1_def [symmetric] is_chunked_def ib gp rc)
qed

lemma final_flags:
  "(head_flags first OR SW_EVENT_DATA_END OR SW_EVENT_DATA_OBJ_PTR) AND SW_EVENT_DATA_PTR = 0"
  "(head_flags first OR SW_EVENT_DATA_END OR SW_EVENT_DATA_OBJ_PTR) AND SW_EVENT_DATA_OBJ_PTR \<noteq> 0"
  "((head_flags first OR SW_EVENT_DATA_END) OR SW_EVENT_DATA_OBJ_PTR) AND SW_EVENT_DATA_PTR = 0"
  "((head_flags first OR SW_EVENT_DATA_END) OR SW_EVENT_DATA_OBJ_PTR) AND SW_EVENT_DATA_OBJ_PTR \<noteq> 0"
  by (cases first; simp add: head_flags_def SW_EVENT_DATA_CHUNK_def SW_EVENT_DATA_BEGIN_def
      SW_EVENT_DATA_END_def SW_EVENT_DATA_OBJ_PTR_def SW_EVENT_DATA_PTR_def)+

lemma obj_ptr_nonzero [simp]: "SW_EVENT_DATA_OBJ_PTR \<noteq> 0"
  by (simp add: SW_EVENT_DATA_OBJ_PTR_def)

lemma after_read_again:
  "after_read (Suc n) maxc (Ret SW_OK, b, s) = after_read n maxc (read_loop maxc 0 b s)"
  by (simp add: after_read_def read_def)

text \<open>
  The state in which the calls of \<open>read\<close> end on a chunk series of the message \<open>P\<close>
  with the id \<open>k\<close>: a positive count is returned, the pool entry holds \<open>P\<close>, the buffer
  refers to it and carries the header of the sender with the object flag.
\<close>

definition delivered :: "DataHead \<Rightarrow> 64 word \<Rightarrow> byte list \<Rightarrow> byte list \<Rightarrow> MessageBus \<Rightarrow>
    ret \<times> MessageBus \<times> stream \<Rightarrow> bool" where
  "delivered h k P tail b res =
     (case res of
        (r, b', s') \<Rightarrow>
          (\<exists>n. r = Ret n \<and> 0 < n) \<and> rxq s' = tail \<and> script s' = [] \<and>
          packet_pool b' = (packet_pool b)(k \<mapsto> reassembly P (length P)) \<and>
          data (buffer b') = ObjVal k \<and>
          (info (buffer b'))\<lparr>flags := 0\<rparr> = h\<lparr>flags := 0\<rparr> \<and>
          flags (info (buffer b')) AND SW_EVENT_DATA_PTR = 0 \<and>
          flags (info (buffer b')) AND SW_EVENT_DATA_OBJ_PTR \<noteq> 0)"

text \<open>
  The calls of \<open>read\<close> take what is left of a chunk series, whatever the consecutive
  chunk count and its limit.
\<close>

lemma read_series:
  assumes m: "0 < m" "m < 2 ^ 32"
    and lp: "length P < 2 ^ 32" and hl: "unat (len h) = length P" and hk: "msg_id h = k"
  shows "script s = [] \<Longrightarrow> buffer_size b = 40 + m \<Longrightarrow> off < length P \<Longrightarrow>
     rxq s = concat (chunk_series h first (chop m (drop off P))) @ tail \<Longrightarrow>
     (if first then off = 0 \<and> packet_pool b k = None \<and> allocator b (length P)
      else packet_pool b k = Some (reassembly P off)) \<Longrightarrow>
     \<exists>n res. after_read n maxc (read_loop maxc c b s) = Some res \<and> delivered h k P tail b res"
proof (induction "length P - off" arbitrary: off c b s first rule: less_induct)
  case less
  note q = less.prems(1) and bs = less.prems(2) and off = less.prems(3)
    and rx = less.prems(4) and pool = less.prems(5)
  define X where "X = drop off P"
  define sl where "sl = take m X"
  have Xne: "X \<noteq> []"
    using off by (simp add: X_def)
  have slne: "sl \<noteq> []"
    using Xne m(1) by (simp add: sl_def)
  have ch: "chop m X = sl # chop m (drop m X)"
    using Xne m(1) by (subst chop.simps) (simp add: sl_def)
  have cap: "40 \<le> buffer_size b" "buffer_size b < 2 ^ 64"
  proof -
    show "40 \<le> buffer_size b"
      using bs by simp
    have "40 + m < 40 + 2 ^ 32"
      using m(2) by simp
    also have "\<dots> < (2::nat) ^ 64"
      by simp
    finally show "buffer_size b < 2 ^ 64"
      using bs by simp
  qed
  have sl': "sl = take (buffer_size b - 40) (drop off P)"
    using bs by (simp add: sl_def X_def)
  define s2 where
    "s2 rest = s\<lparr>rxq := rest, calls := calls s @ [(SysPeek, 40), (SysReadv, int (40 + length sl))]\<rparr>"
    for rest
  define b3 where
    "b3 f = b\<lparr>buffer := (buffer b)\<lparr>info := h\<lparr>flags := f\<rparr>\<rparr>,
               packet_pool := (packet_pool b)(k \<mapsto> reassembly P (off + length sl))\<rparr>" for f
  have step: "read_step maxc c b s = finish_chunk maxc c k (int (40 + length sl)) (b3 f) (s2 rest)"
    if "rxq s = encode_head (h\<lparr>flags := f\<rparr>) @ sl @ rest"
      and "f = head_flags first \<or> f = head_flags first OR SW_EVENT_DATA_END" for f rest
  proof -
    have c: "flags (h\<lparr>flags := f\<rparr>) AND SW_EVENT_DATA_CHUNK \<noteq> 0"
      using that(2) by (auto simp: head_flags_chunk)
    have p: "if first
        then off = 0 \<and> packet_pool b k = None \<and> allocator b (length P) \<and>
             flags (h\<lparr>flags := f\<rparr>) AND SW_EVENT_DATA_BEGIN \<noteq> 0
        else packet_pool b k = Some (reassembly P off)"
      using pool that(2) head_flags_bits(3,4) [of True] by auto
    show ?thesis
      unfolding b3_def s2_def
      by (rule read_step_chunk [OF q that(1) c _ _ p cap slne sl' _ lp])
         (use hk hl off in simp_all)
  qed
  show ?case
  proof (cases "drop m X = []")
    case True
    define f where "f = head_flags first OR SW_EVENT_DATA_END"
    have rx1: "rxq s = encode_head (h\<lparr>flags := f\<rparr>) @ sl @ tail"
      using rx True by (simp add: X_def [symmetric] ch frame_def f_def)
    have whole: "off + length sl = length P"
      using True off by (simp add: sl_def X_def)
    define b4 where "b4 = (b3 f)\<lparr>buffer :=
        (set_flags (f OR SW_EVENT_DATA_OBJ_PTR) (buffer (b3 f)))\<lparr>data := ObjVal k\<rparr>\<rparr>"
    have "finish_chunk maxc c k (int (40 + length sl)) (b3 f) (s2 tail) =
        Inl (Ret (int (40 + length sl)), b4, s2 tail)"
      by (simp add: finish_chunk_def prepare_packet_def is_end_def b3_def b4_def f_def
          head_flags_bits Let_def)
    with step [OF rx1] have "read_loop maxc c b s = (Ret (int (40 + length sl)), b4, s2 tail)"
      by (simp add: read_loop.simps [of maxc c b s] f_def)
    moreover have "delivered h k P tail b (Ret (int (40 + length sl)), b4, s2 tail)"
      using q whole
      by (simp add: delivered_def b4_def b3_def s2_def set_flags_def f_def final_flags)
    ultimately show ?thesis
      by (intro exI [of _ 0] exI [of _ "(Ret (int (40 + length sl)), b4, s2 tail)"])
         (simp add: after_read_def SW_OK_def)
  next
    case False
    define f where "f = head_flags first"
    define rest where "rest = concat (chunk_series h False (chop m (drop m X))) @ tail"
    obtain sl2 sls where nxt: "chop m (drop m X) = sl2 # sls"
      using False m(1) chop_eq_Nil [of m "drop m X"] by (cases "chop m (drop m X)") auto
    have rx1: "rxq s = encode_head (h\<lparr>flags := f\<rparr>) @ sl @ rest"
      using rx by (simp add: X_def [symmetric] ch nxt frame_def f_def rest_def)
    have lsl: "length sl = m"
      using False by (simp add: sl_def min_def)
    have off': "off + m < length P"
      using False by (simp add: X_def)
    have dm: "drop m X = drop (off + m) P"
      by (simp add: X_def add.commute)
    have pool': "if False then off + m = 0 \<and> packet_pool (b3 f) k = None \<and> allocator (b3 f) (length P)
        else packet_pool (b3 f) k = Some (reassembly P (off + m))"
      by (simp add: b3_def lsl)
    have meas: "length P - (off + m) < length P - off"
      using off m(1) by simp
    have ih: "\<exists>n res. after_read n maxc (read_loop maxc c' (b3 f) (s2 rest)) = Some res \<and>
        delivered h k P tail (b3 f) res" for c'
      by (rule less.hyps [OF meas _ _ off' _ pool'])
         (simp_all add: s2_def b3_def q bs rest_def dm)
    have dl: "delivered h k P tail b res" if "delivered h k P tail (b3 f) res" for res
      using that by (cases res) (simp add: delivered_def b3_def)
    have ne: "\<not> is_end (buffer (b3 f))"
      by (simp add: is_end_def b3_def f_def head_flags_bits)
    show ?thesis
    proof (cases "maxc \<le> unat (c + 1)")
      case True
      have "finish_chunk maxc c k (int (40 + length sl)) (b3 f) (s2 rest) =
          Inl (Ret SW_OK, b3 f, s2 rest)"
        using ne True by (simp add: finish_chunk_def prepare_packet_def Let_def)
      with step [OF rx1] have r: "read_loop maxc c b s = (Ret SW_OK, b3 f, s2 rest)"
        by (simp add: read_loop.simps [of maxc c b s] f_def)
      from ih [of 0] obtain n res where
        "after_read n maxc (read_loop maxc 0 (b3 f) (s2 rest)) = Some res"
        "delivered h k P tail (b3 f) res"
        by blast
      then show ?thesis
        using r dl
        by (intro exI [of _ "Suc n"] exI [of _ res]) (simp add: after_read_again)
    next
      case False
      have "finish_chunk maxc c k (int (40 + length sl)) (b3 f) (s2 rest) =
          Inr (c + 1, b3 f, s2 rest)"
        using ne False by (simp add: finish_chunk_def prepare_packet_def Let_def)
      with step [OF rx1] have r: "read_loop maxc c b s = read_loop maxc (c + 1) (b3 f) (s2 rest)"
        by (simp add: read_loop.simps [of maxc c b s] f_def)
      from ih [of "c + 1"] dl show ?thesis
        unfolding r by blast
    qed
  qed
qed

lemma max_length_of_cap:
  assumes "41 \<le> buffer_size b" and "buffer_size b - 40 < 2 ^ 32"
  shows "max_length_of b = buffer_size b - 40"
proof -
  have "buffer_size b < 40 + 2 ^ 32"
    using assms by simp
  also have "\<dots> < (2::nat) ^ 64"
    by simp
  finally have "size_t_sub (buffer_size b) 40 = buffer_size b - 40"
    using assms(1) by (intro size_t_sub_le) simp_all
  then show ?thesis
    using assms(2) by (simp add: max_length_of_def sizeof_DataHead_def)
qed

lemma delivered_packet:
  assumes "delivered h k P tail b (r, b', s')"
  shows "get_packet b' = Some \<lparr>pkt_length = length P, pkt_data = PoolStr k\<rparr> \<and>
         packet_bytes mem b' \<lparr>pkt_length = length P, pkt_data = PoolStr k\<rparr> = Some P \<and>
         len (info (buffer b')) = len h \<and> type (info (buffer b')) = type h \<and>
         fd (info (buffer b')) = fd h \<and> reactor_id (info (buffer b')) = reactor_id h"
proof -
  from assms have d:
    "packet_pool b' = (packet_pool b)(k \<mapsto> reassembly P (length P))"
    "data (buffer b') = ObjVal k"
    "(info (buffer b'))\<lparr>flags := 0\<rparr> = h\<lparr>flags := 0\<rparr>"
    "flags (info (buffer b')) AND SW_EVENT_DATA_PTR = 0"
    "flags (info (buffer b')) AND SW_EVENT_DATA_OBJ_PTR \<noteq> 0"
    by (simp_all add: delivered_def)
  have "len ((info (buffer b'))\<lparr>flags := 0\<rparr>) = len (h\<lparr>flags := 0\<rparr>)"
    "type ((info (buffer b'))\<lparr>flags := 0\<rparr>) = type (h\<lparr>flags := 0\<rparr>)"
    "fd ((info (buffer b'))\<lparr>flags := 0\<rparr>) = fd (h\<lparr>flags := 0\<rparr>)"
    "reactor_id ((info (buffer b'))\<lparr>flags := 0\<rparr>) = reactor_id (h\<lparr>flags := 0\<rparr>)"
    by (simp_all only: d(3))
  then show ?thesis
    using d(1,2,4,5)
    by (simp add: get_packet_def packet_bytes_def reassembly_def bytes_at_def)
qed

text \<open>
  Claim C1, as amended. Let the capacity \<open>C\<close> of both buses be at least
  \<open>sizeof(DataHead) + 1\<close> with \<open>C - sizeof(DataHead)\<close> below \<open>2 ^ 32\<close>, let the
  \<open>SendData\<close> carry the payload \<open>P\<close> (its \<open>len\<close> is the length of \<open>P\<close>, its data
  pointer leads to \<open>P\<close>), let no call on the two sockets fail, and let the receiving bus
  have no pool entry for the message id and be able to allocate \<open>|P|\<close> bytes. Then
  \<open>write\<close> returns true, and calling \<open>read\<close> on what was written, again for as long
  as it returns \<open>SW_OK\<close>, ends with a positive count, after which \<open>get_packet\<close> gives
  a packet of length \<open>|P|\<close> whose bytes are \<open>P\<close>, under a header with the \<open>len\<close>,
  \<open>type\<close>, \<open>fd\<close> and \<open>reactor_id\<close> of the sender.
\<close>

theorem write_read_roundtrip:
  assumes ws: "script ws = []" and rs: "script rs = []"
    and cap: "41 \<le> C" "C - 40 < 2 ^ 32"
    and wb: "buffer_size wb = C" and rb: "buffer_size rb = C"
    and len: "unat (len (info resp)) = length P"
    and pay: "take (length P) (payload_bytes mem (data resp)) = P"
    and fresh: "packet_pool rb new_id = None" and alloc: "allocator rb (length P)"
  shows "\<exists>resp' ws'. write ipc mem new_id wb ws resp = Some (True, resp', ws') \<and>
           (\<exists>n r rb' rs' pkt.
              read_until_ready n maxc rb
                (rs\<lparr>rxq := concat (drop (length (tx ws)) (tx ws'))\<rparr>) = Some (Ret r, rb', rs') \<and>
              0 < r \<and> get_packet rb' = Some pkt \<and> pkt_length pkt = length P \<and>
              packet_bytes mem rb' pkt = Some P \<and>
              len (info (buffer rb')) = len (info resp) \<and>
              type (info (buffer rb')) = type (info resp) \<and>
              fd (info (buffer rb')) = fd (info resp) \<and>
              reactor_id (info (buffer rb')) = reactor_id (info resp))"
proof -
  define m where "m = C - 40"
  have m: "0 < m" "m < 2 ^ 32" "C = 40 + m"
    using cap by (simp_all add: m_def)
  have ml: "max_length_of wb = m"
    using max_length_of_cap [of wb] cap wb by (simp add: m_def)
  define H where "H = (info resp)\<lparr>msg_id := new_id\<rparr>"
  define wire where "wire = wire_of (always_chunked_transfer wb) m H P"
  from write_quiet [OF ws _ len pay, of wb ipc new_id] m(1) ml obtain resp' ws' where
    w: "write ipc mem new_id wb ws resp = Some (True, resp', ws')" "tx ws' = tx ws @ wire"
    by (auto simp: wire_def H_def)
  define rs0 where "rs0 = rs\<lparr>rxq := concat wire\<rparr>"
  have rs0: "script rs0 = []" "rs\<lparr>rxq := concat (drop (length (tx ws)) (tx ws'))\<rparr> = rs0"
    using rs w(2) by (simp_all add: rs0_def)
  have lP: "length P < 2 ^ 32"
    using len unsigned_less [of "len (info resp)", where ?'a = nat] by simp
  have lw: "of_nat (length P) = len (info resp)"
    using len [symmetric] by simp
  have "\<exists>n r rb' rs' pkt.
      read_until_ready n maxc rb rs0 = Some (Ret r, rb', rs') \<and>
      0 < r \<and> get_packet rb' = Some pkt \<and> pkt_length pkt = length P \<and>
      packet_bytes mem rb' pkt = Some P \<and>
      len (info (buffer rb')) = len (info resp) \<and>
      type (info (buffer rb')) = type (info resp) \<and>
      fd (info (buffer rb')) = fd (info resp) \<and>
      reactor_id (info (buffer rb')) = reactor_id (info resp)"
  proof (cases "P = [] \<or> (\<not> always_chunked_transfer wb \<and> length P \<le> m)")
    case True
    define h where "h = (if P = [] then H\<lparr>flags := 0, len := 0\<rparr> else H\<lparr>flags := 0\<rparr>)"
    have rx: "rxq rs0 = encode_head h @ P @ []"
      using True by (auto simp: rs0_def wire_def wire_of_def h_def)
    have fl: "flags h AND SW_EVENT_DATA_CHUNK = 0" "unat (len h) = length P"
      using len by (auto simp: h_def H_def)
    from read_plain [OF rs0(1) rx fl, of maxc rb] obtain s' where
      r: "read maxc rb rs0 =
            (Ret (int (40 + length P)),
             rb\<lparr>buffer := \<lparr>info = h, data = store_data P (data (buffer rb))\<rparr>\<rparr>, s')"
      by blast
    define rb' where "rb' = rb\<lparr>buffer := \<lparr>info = h, data = store_data P (data (buffer rb))\<rparr>\<rparr>"
    have run: "read_until_ready (Suc 0) maxc rb rs0 = Some (Ret (int (40 + length P)), rb', s')"
      by (simp add: r rb'_def SW_OK_def)
    have gp: "get_packet rb' = Some \<lparr>pkt_length = length P, pkt_data = InlineData\<rparr>"
      using fl(2) by (simp add: get_packet_def rb'_def h_def)
    have pb: "packet_bytes mem rb' \<lparr>pkt_length = length P, pkt_data = InlineData\<rparr> = Some P"
      by (simp add: packet_bytes_def rb'_def store_data_def overlay_def bytes_at_def)
    have hd: "len h = len (info resp)" "type h = type (info resp)" "fd h = fd (info resp)"
      "reactor_id h = reactor_id (info resp)"
      using lw by (auto simp: h_def H_def)
    show ?thesis
      using run gp pb hd
      by (intro exI [of _ "Suc 0"] exI [of _ "int (40 + length P)"] exI [of _ rb'] exI [of _ s']
          exI [of _ "\<lparr>pkt_length = length P, pkt_data = InlineData\<rparr>"])
         (simp add: rb'_def)
  next
    case False
    then have ne: "0 < length P"
      by simp
    have rx: "rxq rs0 = concat (chunk_series H True (chop m (drop 0 P))) @ []"
      using False by (auto simp: rs0_def wire_def wire_of_def)
    have pool: "if True then (0::nat) = 0 \<and> packet_pool rb new_id = None \<and> allocator rb (length P)
        else packet_pool rb new_id = Some (reassembly P 0)"
      using fresh alloc by simp
    have hl: "unat (len H) = length P" "msg_id H = new_id"
      using len by (simp_all add: H_def)
    from read_series [OF m(1,2) lP hl rs0(1) _ ne rx pool, of maxc 0] rb m(3)
    obtain n res where
      a: "after_read n maxc (read_loop maxc 0 rb rs0) = Some res"
        "delivered H new_id P [] rb res"
      by auto
    obtain r rb' rs' where res: "res = (r, rb', rs')"
      by (cases res)
    from a(2) obtain k where k: "r = Ret k" "0 < k"
      by (auto simp: delivered_def res)
    have run: "read_until_ready (Suc n) maxc rb rs0 = Some (Ret k, rb', rs')"
      using a(1) unfolding read_until_ready_Suc res k by simp
    from delivered_packet [OF a(2) [unfolded res], of mem] have
      d: "get_packet rb' = Some \<lparr>pkt_length = length P, pkt_data = PoolStr new_id\<rparr>"
        "packet_bytes mem rb' \<lparr>pkt_length = length P, pkt_data = PoolStr new_id\<rparr> = Some P"
        "len (info (buffer rb')) = len H" "type (info (buffer rb')) = type H"
        "fd (info (buffer rb')) = fd H" "reactor_id (info (buffer rb')) = reactor_id H"
      by simp_all
    show ?thesis
      using run k(2) d
      by (intro exI [of _ "Suc n"] exI [of _ k] exI [of _ rb'] exI [of _ rs']
          exI [of _ "\<lparr>pkt_length = length P, pkt_data = PoolStr new_id\<rparr>"])
         (simp add: H_def)
  qed
  then show ?thesis
    using w(1) unfolding rs0(2) [symmetric] by blast
qed

theorem write_read_roundtrip_witness:
  "\<exists>resp' ws'.
     write 8192 mem20 1 (bus0 48) (sock0 [] :: stream) task20 = Some (True, resp', ws') \<and>
     (\<exists>n r rb' rs' pkt.
        read_until_ready n 32 (bus0 48)
          ((sock0 [])\<lparr>rxq := concat (drop (length (tx (sock0 [] :: stream))) (tx ws'))\<rparr>) =
          Some (Ret r, rb', rs') \<and>
        0 < r \<and> get_packet rb' = Some pkt \<and> pkt_length pkt = length payload20 \<and>
        packet_bytes mem20 rb' pkt = Some payload20 \<and>
        len (info (buffer rb')) = len (info task20) \<and>
        type (info (buffer rb')) = type (info task20) \<and>
        fd (info (buffer rb')) = fd (info task20) \<and>
        reactor_id (info (buffer rb')) = reactor_id (info task20))"
  by (rule write_read_roundtrip [where C = 48])
     (simp_all add: sock0_def bus0_def task20_def head0_def payload20_def mem20_def)

text \<open>
  Claim C1 as stated fails: with a capacity of \<open>2 ^ 32 + sizeof(DataHead)\<close> the 32-bit
  \<open>max_length\<close> is 0, and \<open>write\<close> of a payload of 20 bytes never returns on a
  socket whose calls do not fail.
\<close>

theorem write_read_roundtrip_counterexample:
  "sizeof_DataHead + 1 \<le> buffer_size (bus0 (2 ^ 32 + 40)) \<and>
   unat (len (info task20)) = length payload20 \<and>
   payload_bytes mem20 (data task20) = payload20 \<and>
   max_length_of (bus0 (2 ^ 32 + 40)) = 0 \<and>
   write 8192 mem20 1 (bus0 (2 ^ 32 + 40)) (sock0 [] :: stream) task20 = None"
proof -
  have ml: "max_length_of (bus0 (2 ^ 32 + 40)) = 0"
    by (simp add: max_length_of_def bus0_def size_t_sub_def sizeof_DataHead_def)
  have ch: "\<not> always_chunked_transfer (bus0 (2 ^ 32 + 40))"
    by (simp add: bus0_def)
  have l: "unat (len (info task20)) = 20" "data task20 = UserMem 100"
    by (simp_all add: task20_def head0_def)
  have "write 8192 mem20 1 (bus0 (2 ^ 32 + 40)) (sock0 [] :: stream) task20 = None"
    unfolding write_def Let_def ml l write_chunked_def
    by (simp add: ch write_loop_stuck sock0_def)
  then show ?thesis
    using ml by (simp add: sizeof_DataHead_def bus0_def task20_def head0_def payload20_def mem20_def)
qed

section \<open>The fair-share limit\<close>

text \<open>
  The number of \<open>readv\<close> calls on a socket that have returned data. Every pass of the
  loop of \<open>MessageBus::read\<close> that takes a chunk makes one such call, sized by the
  \<open>buffer_size\<close> of the reader and by what the header announces; what it takes is one
  record of the sender only when the slices of the sender fill the capacity of the reader.
\<close>

definition readv_calls :: "'q Socket \<Rightarrow> nat" where
  "readv_calls s = length (filter (\<lambda>(c, n). c = SysReadv \<and> 0 < n) (calls s))"

lemma stream_take_calls:
  "stream_take c peek n s = (r, s1) \<Longrightarrow> calls s1 = calls s @ [(c, ssize r)]"
  by (auto simp: stream_take_def logcall_def next_fault_def
      split: list.splits option.splits if_splits)

lemma flag_kept:
  assumes "(f OR g) AND m = (0 :: 8 word)"
  shows "f AND m = 0"
proof -
  from assms have "(f AND m) OR (g AND m) = 0"
    by (simp add: bit.conj_disj_distrib2)
  then show ?thesis
    by (simp add: or_eq_0_iff)
qed

lemma finish_chunk_Inl:
  assumes "finish_chunk maxc c k n b s = Inl (r, b', s')"
  shows "s' = s \<and> (is_end (buffer b') \<or> (r = Ret SW_OK \<and> maxc \<le> unat (c + 1)))"
  using assms
  by (auto simp: finish_chunk_def prepare_packet_def Let_def is_end_def set_flags_def
      dest: flag_kept split: if_splits)

lemma finish_chunk_Inr_count:
  assumes "finish_chunk maxc c k n b s = Inr (c', b', s')"
  shows "s' = s \<and> c' = c + 1 \<and> unat c' < maxc"
  using assms
  by (auto simp: finish_chunk_def prepare_packet_def Let_def split: if_splits)

lemma readv_calls_append [simp]:
  "readv_calls (s\<lparr>calls := calls s @ [e]\<rparr>) =
     readv_calls s + (if fst e = SysReadv \<and> 0 < snd e then 1 else 0)"
  by (cases e) (simp add: readv_calls_def)

lemma readv_calls_calls:
  "calls s1 = calls s @ [(c, n)] \<Longrightarrow>
     readv_calls s1 = readv_calls s + (if c = SysReadv \<and> 0 < n then 1 else 0)"
  by (simp add: readv_calls_def)

lemma read_chunk_Inl:
  assumes "read_chunk maxc c k b s = Inl (r, b', s')"
  shows "readv_calls s' \<le> readv_calls s + 1 \<and>
         (readv_calls s' = readv_calls s + 1 \<longrightarrow>
            is_end (buffer b') \<or> (r = Ret SW_OK \<and> maxc \<le> unat (c + 1)))"
proof (cases "packet_pool b k")
  case None
  with assms show ?thesis
    by (simp add: read_chunk_def)
next
  case (Some pb)
  obtain io s1 where rv: "readv [sizeof_DataHead,
      min (size_t_sub (buffer_size b) sizeof_DataHead)
        (size_t_sub (unat (len (info (buffer b)))) (str_length pb))] s = (io, s1)"
    by (meson surj_pair)
  from rv have c1: "readv_calls s1 = readv_calls s + (if 0 < ssize io then 1 else 0)"
    by (auto simp: readv_def dest!: stream_take_calls readv_calls_calls)
  show ?thesis
  proof (cases io)
    case (Failed e)
    with assms Some rv c1 show ?thesis
      by (auto simp: read_chunk_def Let_def split: if_splits dest!: finish_chunk_Inl)
  next
    case (Got bs)
    with assms Some rv c1 show ?thesis
      by (auto simp: read_chunk_def Let_def log_msg_def split: if_splits dest!: finish_chunk_Inl)
  qed
qed

lemma read_chunk_Inr:
  assumes "read_chunk maxc c k b s = Inr (c', b', s')"
  shows "readv_calls s' \<le> readv_calls s + 1 \<and> c' = c + 1 \<and> unat c' < maxc"
proof (cases "packet_pool b k")
  case None
  with assms show ?thesis
    by (simp add: read_chunk_def)
next
  case (Some pb)
  obtain io s1 where rv: "readv [sizeof_DataHead,
      min (size_t_sub (buffer_size b) sizeof_DataHead)
        (size_t_sub (unat (len (info (buffer b)))) (str_length pb))] s = (io, s1)"
    by (meson surj_pair)
  from rv have c1: "readv_calls s1 = readv_calls s + (if 0 < ssize io then 1 else 0)"
    by (auto simp: readv_def dest!: stream_take_calls readv_calls_calls)
  show ?thesis
  proof (cases io)
    case (Failed e)
    with assms Some rv c1 show ?thesis
      by (auto simp: read_chunk_def Let_def split: if_splits dest!: finish_chunk_Inr_count)
  next
    case (Got bs)
    with assms Some rv c1 show ?thesis
      by (auto simp: read_chunk_def Let_def split: if_splits dest!: finish_chunk_Inr_count)
  qed
qed

lemma peek_readv_calls:
  "recv_peek n s = (io, s1) \<Longrightarrow> readv_calls s1 = readv_calls s"
  by (auto simp: recv_peek_def dest!: stream_take_calls readv_calls_calls)

lemma recv_readv_calls:
  "recv n s = (io, s1) \<Longrightarrow> readv_calls s1 = readv_calls s"
  by (auto simp: recv_def dest!: stream_take_calls readv_calls_calls)

lemma stream_read_readv_calls:
  "stream_read n s = (io, s1) \<Longrightarrow> readv_calls s1 = readv_calls s"
  by (auto simp: stream_read_def dest!: stream_take_calls readv_calls_calls)

lemma get_packet_buffer_buffer:
  "get_packet_buffer b = Inr (p, b') \<Longrightarrow> buffer b' = buffer b"
  by (auto simp: get_packet_buffer_def Let_def split: option.splits if_splits sum.splits)

lemma read_step_Inl:
  assumes "read_step maxc c b s = Inl (r, b', s')"
  shows "readv_calls s' \<le> readv_calls s + 1 \<and>
         (readv_calls s' = readv_calls s + 1 \<longrightarrow>
            is_end (buffer b') \<or> (r = Ret SW_OK \<and> maxc \<le> unat (c + 1)))"
proof -
  obtain io s1 where pk: "recv_peek sizeof_DataHead s = (io, s1)"
    by (meson surj_pair)
  note c1 = peek_readv_calls [OF pk]
  show ?thesis
  proof (cases io)
    case (Failed e)
    with assms pk c1 show ?thesis
      by (auto simp: read_step_def split: if_splits)
  next
    case (Got hb)
    define b1 where "b1 = b\<lparr>buffer := (buffer b)\<lparr>info := store_head hb (info (buffer b))\<rparr>\<rparr>"
    show ?thesis
    proof (cases "hb = []")
      case True
      with assms pk c1 Got show ?thesis
        by (auto simp: read_step_def log_msg_def)
    next
      case ne: False
      show ?thesis
      proof (cases "is_chunked (buffer b1)")
        case False
        obtain io2 s2 where rd:
          "stream_read (sizeof_DataHead + unat (len (info (buffer b1)))) s1 = (io2, s2)"
          by (meson surj_pair)
        from assms pk Got ne False rd c1 stream_read_readv_calls [OF rd] show ?thesis
          by (auto simp: read_step_def b1_def Let_def)
      next
        case True
        show ?thesis
        proof (cases "get_packet_buffer b1")
          case (Inl e)
          with assms pk Got ne True c1 show ?thesis
            by (auto simp: read_step_def b1_def Let_def)
        next
          case (Inr pb)
          obtain p b2 where pb: "pb = (p, b2)"
            by (cases pb)
          show ?thesis
          proof (cases p)
            case None
            obtain io3 s3 where rc: "recv sizeof_DataHead s1 = (io3, s3)"
              by (meson surj_pair)
            from assms pk Got ne True Inr pb None rc c1 recv_readv_calls [OF rc] show ?thesis
              by (auto simp: read_step_def b1_def Let_def)
          next
            case (Some k)
            from assms pk Got ne True Inr pb Some
            have "read_chunk maxc c k b2 s1 = Inl (r, b', s')"
              by (auto simp: read_step_def b1_def Let_def)
            from read_chunk_Inl [OF this] c1 show ?thesis
              by simp
          qed
        qed
      qed
    qed
  qed
qed

lemma read_step_Inr:
  assumes "read_step maxc c b s = Inr (c', b', s')"
  shows "readv_calls s' \<le> readv_calls s + 1 \<and> c' = c + 1 \<and> unat c' < maxc"
proof -
  obtain io s1 where pk: "recv_peek sizeof_DataHead s = (io, s1)"
    by (meson surj_pair)
  note c1 = peek_readv_calls [OF pk]
  from assms pk obtain k b2 where "read_chunk maxc c k b2 s1 = Inr (c', b', s')"
    by (auto simp: read_step_def Let_def split: io.splits if_splits prod.splits sum.splits option.splits)
  from read_chunk_Inr [OF this] c1 show ?thesis
    by auto
qed

lemma unat_succ_16:
  "unat (c :: 16 word) < maxc \<Longrightarrow> maxc \<le> 65535 \<Longrightarrow> unat (c + 1) = unat c + 1"
  by (simp add: unat_word_ariths)

lemma read_loop_count:
  assumes "maxc \<le> 65535"
  shows "unat c < maxc \<Longrightarrow> read_loop maxc c b s = (r, b', s') \<Longrightarrow>
     readv_calls s' + unat c \<le> readv_calls s + maxc \<and>
     (readv_calls s' + unat c = readv_calls s + maxc \<and> \<not> is_end (buffer b') \<longrightarrow> r = Ret SW_OK)"
proof (induction "length (script s) + length (rxq s)" arbitrary: c b s rule: less_induct)
  case less
  show ?case
  proof (cases "read_step maxc c b s")
    case (Inl res)
    with less.prems(2) have st: "read_step maxc c b s = Inl (r, b', s')"
      by (simp add: read_loop.simps [of maxc c b s])
    from read_step_Inl [OF st] less.prems(1) show ?thesis
      by auto
  next
    case (Inr nxt)
    obtain c1 b1 s1 where nxt: "nxt = (c1, b1, s1)"
      by (cases nxt)
    have st: "read_step maxc c b s = Inr (c1, b1, s1)"
      using Inr nxt by simp
    have loop: "read_loop maxc c1 b1 s1 = (r, b', s')"
      using less.prems(2) st by (simp add: read_loop.simps [of maxc c b s])
    from read_step_Inr [OF st] have
      k: "readv_calls s1 \<le> readv_calls s + 1" "c1 = c + 1" "unat c1 < maxc"
      by auto
    have u: "unat c1 = unat c + 1"
      using k(2) unat_succ_16 [OF less.prems(1) assms] by simp
    from less.hyps [OF read_step_decreases [OF st] k(3) loop] have
      ih: "readv_calls s' + unat c1 \<le> readv_calls s1 + maxc"
        "readv_calls s' + unat c1 = readv_calls s1 + maxc \<and> \<not> is_end (buffer b') \<longrightarrow> r = Ret SW_OK"
      by simp_all
    show ?thesis
      using ih k(1) u by auto
  qed
qed

text \<open>A read on a datagram socket takes at most one datagram from the queue.\<close>

lemma dgram_read_drop:
  assumes "dgram_read n s = (r, s1)"
  shows "\<exists>k \<le> 1. k \<le> length (rxq s) \<and> rxq s1 = drop k (rxq s)"
proof (cases "rxq s1 = rxq s")
  case True
  then show ?thesis
    by (intro exI [of _ 0]) simp
next
  case False
  with assms have "rxq s \<noteq> [] \<and> rxq s1 = drop 1 (rxq s)"
    by (auto simp: dgram_read_def logcall_def next_fault_def
        split: list.splits option.splits if_splits)
  then show ?thesis
    by (intro exI [of _ 1]) (cases "rxq s"; simp)
qed

lemma read_with_buffer_step_Inl:
  assumes "read_with_buffer_step maxc c b s = Inl (r, b', s')"
  shows "\<exists>k \<le> 1. k \<le> length (rxq s) \<and> rxq s' = drop k (rxq s)"
proof -
  obtain io s1 where rd: "dgram_read (buffer_size b) s = (io, s1)"
    by (meson surj_pair)
  have "s' = s1"
    using assms rd
    by (auto simp: read_with_buffer_step_def Let_def
        split: io.splits if_splits sum.splits option.splits prod.splits
        dest!: finish_chunk_Inl)
  with dgram_read_drop [OF rd] show ?thesis
    by simp
qed

lemma read_with_buffer_step_Inr:
  assumes "read_with_buffer_step maxc c b s = Inr (c', b', s')"
  shows "(\<exists>k \<le> 1. k \<le> length (rxq s) \<and> rxq s' = drop k (rxq s)) \<and> c' = c + 2 \<and> unat c' < maxc"
proof -
  obtain io s1 where rd: "dgram_read (buffer_size b) s = (io, s1)"
    by (meson surj_pair)
  have "s' = s1 \<and> c' = c + 1 + 1 \<and> unat c' < maxc"
    using assms rd
    by (auto simp: read_with_buffer_step_def Let_def
        split: io.splits if_splits sum.splits option.splits prod.splits
        dest!: finish_chunk_Inr_count)
  with dgram_read_drop [OF rd] show ?thesis
    by auto
qed

lemma unat_plus2_16:
  "unat (c :: 16 word) < maxc \<Longrightarrow> maxc \<le> 65534 \<Longrightarrow> unat (c + 2) = unat c + 2"
  by (simp add: unat_word_ariths)

lemma read_with_buffer_loop_count:
  assumes "maxc \<le> 65534"
  shows "unat c < maxc \<Longrightarrow> read_with_buffer_loop maxc c b s = (r, b', s') \<Longrightarrow>
     \<exists>k. k \<le> length (rxq s) \<and> rxq s' = drop k (rxq s) \<and> 2 * k + unat c \<le> maxc + 1"
proof (induction "length (rxq s)" arbitrary: c b s rule: less_induct)
  case less
  show ?case
  proof (cases "read_with_buffer_step maxc c b s")
    case (Inl res)
    with less.prems(2) have st: "read_with_buffer_step maxc c b s = Inl (r, b', s')"
      by (simp add: read_with_buffer_loop.simps [of maxc c b s])
    from read_with_buffer_step_Inl [OF st] obtain k where
      "k \<le> 1" "k \<le> length (rxq s)" "rxq s' = drop k (rxq s)"
      by (elim exE conjE)
    with less.prems(1) show ?thesis
      by (intro exI [of _ k]) simp
  next
    case (Inr nxt)
    obtain c1 b1 s1 where nxt: "nxt = (c1, b1, s1)"
      by (cases nxt)
    have st: "read_with_buffer_step maxc c b s = Inr (c1, b1, s1)"
      using Inr nxt by simp
    have loop: "read_with_buffer_loop maxc c1 b1 s1 = (r, b', s')"
      using less.prems(2) st by (simp add: read_with_buffer_loop.simps [of maxc c b s])
    from read_with_buffer_step_Inr [OF st] obtain k1 where
      k: "k1 \<le> 1" "k1 \<le> length (rxq s)" "rxq s1 = drop k1 (rxq s)" "c1 = c + 2" "unat c1 < maxc"
      by (elim exE conjE)
    have u: "unat c1 = unat c + 2"
      using k(4) unat_plus2_16 [OF less.prems(1) assms] by simp
    from less.hyps [OF read_with_buffer_step_decreases [OF st] k(5) loop] obtain k2 where
      ih: "k2 \<le> length (rxq s1)" "rxq s' = drop k2 (rxq s1)" "2 * k2 + unat c1 \<le> maxc + 1"
      by (elim exE conjE)
    show ?thesis
      using ih k(1,2,3) u by (intro exI [of _ "k2 + k1"]) (simp add: add.commute)
  qed
qed

lemma end_kept:
  "((head_flags first OR SW_EVENT_DATA_END) OR SW_EVENT_DATA_OBJ_PTR) AND SW_EVENT_DATA_END \<noteq> 0"
  by (cases first; simp add: head_flags_def SW_EVENT_DATA_CHUNK_def SW_EVENT_DATA_BEGIN_def
      SW_EVENT_DATA_END_def SW_EVENT_DATA_OBJ_PTR_def)

text \<open>
  One invocation of the loop of \<open>read\<close> on what is left of a chunk series framed at the
  capacity of the reader: it takes records until one carries END or the counter reaches
  the limit.
\<close>

lemma read_loop_series:
  assumes m: "0 < m" "m < 2 ^ 32"
    and lp: "length P < 2 ^ 32" and hl: "unat (len h) = length P" and hk: "msg_id h = k"
    and mx: "maxc \<le> 65535"
  shows "script s = [] \<Longrightarrow> buffer_size b = 40 + m \<Longrightarrow> off < length P \<Longrightarrow>
     rxq s = concat (chunk_series h first (chop m (drop off P))) @ tail \<Longrightarrow>
     (if first then off = 0 \<and> packet_pool b k = None \<and> allocator b (length P)
      else packet_pool b k = Some (reassembly P off)) \<Longrightarrow>
     unat c < maxc \<Longrightarrow>
     \<exists>r b' s'. read_loop maxc c b s = (r, b', s') \<and>
       rxq s' = concat (drop (min (length (chop m (drop off P))) (maxc - unat c))
                  (chunk_series h first (chop m (drop off P)))) @ tail \<and>
       (if length (chop m (drop off P)) \<le> maxc - unat c
        then (\<exists>n. r = Ret n \<and> 0 < n) \<and> is_end (buffer b')
        else r = Ret SW_OK \<and> script s' = [] \<and> buffer_size b' = buffer_size b \<and>
             off + (maxc - unat c) * m < length P \<and>
             packet_pool b' k = Some (reassembly P (off + (maxc - unat c) * m)) \<and>
             rxq s' = concat (chunk_series h False (chop m (drop (off + (maxc - unat c) * m) P))) @ tail)"
proof (induction "length P - off" arbitrary: off c b s first rule: less_induct)
  case less
  note q = less.prems(1) and bs = less.prems(2) and off = less.prems(3)
    and rx = less.prems(4) and pool = less.prems(5) and cnt = less.prems(6)
  define X where "X = drop off P"
  define sl where "sl = take m X"
  have Xne: "X \<noteq> []"
    using off by (simp add: X_def)
  have slne: "sl \<noteq> []"
    using Xne m(1) by (simp add: sl_def)
  have ch: "chop m X = sl # chop m (drop m X)"
    using Xne m(1) by (subst chop.simps) (simp add: sl_def)
  have cap: "40 \<le> buffer_size b" "buffer_size b < 2 ^ 64"
  proof -
    show "40 \<le> buffer_size b"
      using bs by simp
    have "40 + m < 40 + 2 ^ 32"
      using m(2) by simp
    also have "\<dots> < (2::nat) ^ 64"
      by simp
    finally show "buffer_size b < 2 ^ 64"
      using bs by simp
  qed
  have sl': "sl = take (buffer_size b - 40) (drop off P)"
    using bs by (simp add: sl_def X_def)
  have u: "unat (c + 1) = unat c + 1"
    using unat_succ_16 [OF cnt mx] .
  define s2 where
    "s2 rest = s\<lparr>rxq := rest, calls := calls s @ [(SysPeek, 40), (SysReadv, int (40 + length sl))]\<rparr>"
    for rest
  define b3 where
    "b3 f = b\<lparr>buffer := (buffer b)\<lparr>info := h\<lparr>flags := f\<rparr>\<rparr>,
               packet_pool := (packet_pool b)(k \<mapsto> reassembly P (off + length sl))\<rparr>" for f
  have step: "read_step maxc c b s = finish_chunk maxc c k (int (40 + length sl)) (b3 f) (s2 rest)"
    if "rxq s = encode_head (h\<lparr>flags := f\<rparr>) @ sl @ rest"
      and "f = head_flags first \<or> f = head_flags first OR SW_EVENT_DATA_END" for f rest
  proof -
    have c: "flags (h\<lparr>flags := f\<rparr>) AND SW_EVENT_DATA_CHUNK \<noteq> 0"
      using that(2) by (auto simp: head_flags_chunk)
    have p: "if first
        then off = 0 \<and> packet_pool b k = None \<and> allocator b (length P) \<and>
             flags (h\<lparr>flags := f\<rparr>) AND SW_EVENT_DATA_BEGIN \<noteq> 0
        else packet_pool b k = Some (reassembly P off)"
      using pool that(2) head_flags_bits(3,4) [of True] by auto
    show ?thesis
      unfolding b3_def s2_def
      by (rule read_step_chunk [OF q that(1) c _ _ p cap slne sl' _ lp])
         (use hk hl off in simp_all)
  qed
  show ?case
  proof (cases "drop m X = []")
    case True
    define f where "f = head_flags first OR SW_EVENT_DATA_END"
    have one: "chop m X = [sl]"
      using ch True by simp
    have rx1: "rxq s = encode_head (h\<lparr>flags := f\<rparr>) @ sl @ tail"
      using rx by (simp add: X_def [symmetric] one frame_def f_def)
    define b4 where "b4 = (b3 f)\<lparr>buffer :=
        (set_flags (f OR SW_EVENT_DATA_OBJ_PTR) (buffer (b3 f)))\<lparr>data := ObjVal k\<rparr>\<rparr>"
    have "finish_chunk maxc c k (int (40 + length sl)) (b3 f) (s2 tail) =
        Inl (Ret (int (40 + length sl)), b4, s2 tail)"
      by (simp add: finish_chunk_def prepare_packet_def is_end_def b3_def b4_def f_def
          head_flags_bits Let_def)
    with step [OF rx1] have r: "read_loop maxc c b s = (Ret (int (40 + length sl)), b4, s2 tail)"
      by (simp add: read_loop.simps [of maxc c b s] f_def)
    have e: "is_end (buffer b4)"
      by (simp add: b4_def b3_def is_end_def set_flags_def f_def end_kept)
    have mn: "min (Suc 0) (maxc - unat c) = Suc 0" "Suc 0 \<le> maxc - unat c"
      using cnt by simp_all
    show ?thesis
      unfolding X_def [symmetric] one r
      using e mn by (simp add: s2_def)
  next
    case False
    define f where "f = head_flags first"
    define Y where "Y = chop m (drop m X)"
    define rest where "rest = concat (chunk_series h False Y) @ tail"
    obtain sl2 sls where nxt: "Y = sl2 # sls"
      using False m(1) chop_eq_Nil [of m "drop m X"] by (cases Y) (auto simp: Y_def)
    have chY: "chop m X = sl # Y"
      using ch by (simp add: Y_def)
    have ser: "chunk_series h first (sl # Y) = frame h f sl # chunk_series h False Y"
      by (simp add: nxt f_def)
    have rx1: "rxq s = encode_head (h\<lparr>flags := f\<rparr>) @ sl @ rest"
      using rx by (simp add: X_def [symmetric] chY ser frame_def rest_def)
    have lsl: "length sl = m"
      using False by (simp add: sl_def min_def)
    have off': "off + m < length P"
      using False by (simp add: X_def)
    have dm: "drop m X = drop (off + m) P"
      by (simp add: X_def add.commute)
    have Y': "Y = chop m (drop (off + m) P)"
      by (simp add: Y_def dm)
    have pool': "if False then off + m = 0 \<and> packet_pool (b3 f) k = None \<and> allocator (b3 f) (length P)
        else packet_pool (b3 f) k = Some (reassembly P (off + m))"
      by (simp add: b3_def lsl)
    have meas: "length P - (off + m) < length P - off"
      using off m(1) by simp
    have ne: "\<not> is_end (buffer (b3 f))"
      by (simp add: is_end_def b3_def f_def head_flags_bits)
    have lenY: "0 < length Y"
      by (simp add: nxt)
    show ?thesis
    proof (cases "maxc \<le> unat (c + 1)")
      case True
      have "finish_chunk maxc c k (int (40 + length sl)) (b3 f) (s2 rest) =
          Inl (Ret SW_OK, b3 f, s2 rest)"
        using ne True by (simp add: finish_chunk_def prepare_packet_def Let_def)
      with step [OF rx1] have r: "read_loop maxc c b s = (Ret SW_OK, b3 f, s2 rest)"
        by (simp add: read_loop.simps [of maxc c b s] f_def)
      have bud: "maxc - unat c = Suc 0"
        using True cnt u by simp
      show ?thesis
        unfolding X_def [symmetric] chY r bud ser
        using lenY q off' by (simp add: s2_def rest_def b3_def lsl Y')
    next
      case False
      then have cnt': "unat (c + 1) < maxc"
        by simp
      have "finish_chunk maxc c k (int (40 + length sl)) (b3 f) (s2 rest) =
          Inr (c + 1, b3 f, s2 rest)"
        using ne False by (simp add: finish_chunk_def prepare_packet_def Let_def)
      with step [OF rx1] have r: "read_loop maxc c b s = read_loop maxc (c + 1) (b3 f) (s2 rest)"
        by (simp add: read_loop.simps [of maxc c b s] f_def)
      have "\<exists>r b' s'. read_loop maxc (c + 1) (b3 f) (s2 rest) = (r, b', s') \<and>
          rxq s' = concat (drop (min (length (chop m (drop (off + m) P))) (maxc - unat (c + 1)))
                     (chunk_series h False (chop m (drop (off + m) P)))) @ tail \<and>
          (if length (chop m (drop (off + m) P)) \<le> maxc - unat (c + 1)
           then (\<exists>n. r = Ret n \<and> 0 < n) \<and> is_end (buffer b')
           else r = Ret SW_OK \<and> script s' = [] \<and> buffer_size b' = buffer_size (b3 f) \<and>
                off + m + (maxc - unat (c + 1)) * m < length P \<and>
                packet_pool b' k = Some (reassembly P (off + m + (maxc - unat (c + 1)) * m)) \<and>
                rxq s' = concat (chunk_series h False
                  (chop m (drop (off + m + (maxc - unat (c + 1)) * m) P))) @ tail)"
        by (rule less.hyps [OF meas _ _ off' _ pool' cnt'])
           (simp_all add: s2_def b3_def q bs rest_def Y')
      then obtain r1 b1 s1 where
        ih: "read_loop maxc (c + 1) (b3 f) (s2 rest) = (r1, b1, s1)"
          "rxq s1 = concat (drop (min (length Y) (maxc - unat (c + 1)))
                     (chunk_series h False Y)) @ tail"
          "if length Y \<le> maxc - unat (c + 1)
           then (\<exists>n. r1 = Ret n \<and> 0 < n) \<and> is_end (buffer b1)
           else r1 = Ret SW_OK \<and> script s1 = [] \<and> buffer_size b1 = buffer_size (b3 f) \<and>
                off + m + (maxc - unat (c + 1)) * m < length P \<and>
                packet_pool b1 k = Some (reassembly P (off + m + (maxc - unat (c + 1)) * m)) \<and>
                rxq s1 = concat (chunk_series h False
                  (chop m (drop (off + m + (maxc - unat (c + 1)) * m) P))) @ tail"
        unfolding Y' [symmetric] by (elim exE conjE)
      have bud: "maxc - unat c = Suc (maxc - unat (c + 1))"
        using cnt' u by simp
      have le: "(Suc (length Y) \<le> Suc (maxc - unat (c + 1))) = (length Y \<le> maxc - unat (c + 1))"
        by simp
      have bsz: "buffer_size (b3 f) = buffer_size b"
        by (simp add: b3_def)
      have ar: "off + Suc (maxc - unat (c + 1)) * m = off + m + (maxc - unat (c + 1)) * m"
        by simp
      show ?thesis
        unfolding X_def [symmetric] chY r ih(1) bud ser ar
        using ih(2,3) by (auto simp: le bsz split: if_splits)
    qed
  qed
qed

text \<open>
  One pass of \<open>read_with_buffer\<close> on a datagram that holds a chunk whose message has a
  pool entry, or can get one.
\<close>

lemma read_with_buffer_step_chunk:
  assumes q: "script s = []" and rx: "rxq s = frame h f sl # rest"
    and ch: "f AND SW_EVENT_DATA_CHUNK \<noteq> 0"
    and cap: "40 \<le> buffer_size b"
    and pool: "packet_pool b (msg_id h) \<noteq> None \<or>
               (f AND SW_EVENT_DATA_BEGIN \<noteq> 0 \<and> allocator b (unat (len h)))"
  shows "\<exists>n b2 s2. read_with_buffer_step maxc c b s =
             finish_chunk maxc (c + 1) (msg_id h) n b2 s2 \<and>
           0 < n \<and> rxq s2 = rest \<and> script s2 = [] \<and> info (buffer b2) = h\<lparr>flags := f\<rparr> \<and>
           packet_pool b2 (msg_id h) \<noteq> None \<and> buffer_size b2 = buffer_size b"
proof -
  define C where "C = buffer_size b"
  define bs where "bs = encode_head (h\<lparr>flags := f\<rparr>) @ take (C - 40) sl"
  define s1 where "s1 = s\<lparr>rxq := rest, calls := calls s @ [(SysRead, int (length bs))]\<rparr>"
  define b1 where "b1 = b\<lparr>buffer := store_buffer (Got bs) (buffer b)\<rparr>"
  have tk: "take C (frame h f sl) = bs"
    using cap by (simp add: frame_def bs_def C_def)
  have rd: "dgram_read (buffer_size b) s = (Got bs, s1)"
    using q rx tk by (simp add: dgram_read_def next_fault_def logcall_def s1_def C_def)
  have ne: "bs \<noteq> []"
    by (simp add: bs_def)
  have ib: "info (buffer b1) = h\<lparr>flags := f\<rparr>"
    by (simp add: b1_def bs_def)
  have chk: "is_chunked (buffer b1)"
    using ch by (simp add: is_chunked_def ib)
  have b1: "packet_pool b1 = packet_pool b" "allocator b1 = allocator b"
    "buffer_size b1 = buffer_size b"
    by (simp_all add: b1_def)
  have "\<exists>b2 pb. get_packet_buffer b1 = Inr (Some (msg_id h), b2) \<and>
          packet_pool b2 (msg_id h) = Some pb \<and> buffer b2 = buffer b1 \<and>
          buffer_size b2 = buffer_size b"
  proof (cases "packet_pool b (msg_id h)")
    case None
    with pool have "is_begin (buffer b1)" "allocator b (unat (len h))"
      by (simp_all add: is_begin_def ib)
    with None show ?thesis
      by (simp add: get_packet_buffer_def ib b1 make_string_def Let_def)
  next
    case (Some pb)
    then show ?thesis
      by (simp add: get_packet_buffer_def ib b1 Let_def)
  qed
  then obtain b2 pb where
    gp: "get_packet_buffer b1 = Inr (Some (msg_id h), b2)"
      "packet_pool b2 (msg_id h) = Some pb" "buffer b2 = buffer b1"
      "buffer_size b2 = buffer_size b"
    by (elim exE conjE)
  define b3 where "b3 = b2\<lparr>packet_pool := (packet_pool b2)(msg_id h \<mapsto>
      append (take (size_t_sub (length bs) sizeof_DataHead) (raw_bytes (data (buffer b2)))) pb)\<rparr>"
  have st: "read_with_buffer_step maxc c b s =
      finish_chunk maxc (c + 1) (msg_id h) (int (length bs)) b3 s1"
    unfolding read_with_buffer_step_def rd prod.case io.case Let_def b1_def [symmetric]
    using ne chk by (simp add: gp(1,2) b3_def)
  show ?thesis
    using st ne q gp(3,4) ib
    by (intro exI [of _ "int (length bs)"] exI [of _ b3] exI [of _ s1])
       (simp add: b3_def s1_def)
qed

text \<open>
  One invocation of the loop of \<open>read_with_buffer\<close> on the datagrams of a chunk series:
  the counter advances by two for every datagram.
\<close>

lemma read_with_buffer_loop_series:
  assumes mx: "maxc \<le> 65534"
  shows "script s = [] \<Longrightarrow> 40 \<le> buffer_size b \<Longrightarrow> sls \<noteq> [] \<Longrightarrow>
     rxq s = chunk_series h first sls @ tail \<Longrightarrow>
     packet_pool b (msg_id h) \<noteq> None \<or> (first \<and> allocator b (unat (len h))) \<Longrightarrow>
     unat c < maxc \<Longrightarrow>
     \<exists>r b' s'. read_with_buffer_loop maxc c b s = (r, b', s') \<and>
       rxq s' = drop (min (length sls) ((maxc - unat c + 1) div 2)) (chunk_series h first sls) @ tail \<and>
       (if length sls \<le> (maxc - unat c + 1) div 2
        then (\<exists>n. r = Ret n \<and> 0 < n) \<and> is_end (buffer b')
        else r = Ret SW_OK \<and> script s' = [] \<and> buffer_size b' = buffer_size b \<and>
             packet_pool b' (msg_id h) \<noteq> None)"
proof (induction h first sls arbitrary: c b s rule: chunk_series.induct)
  case (1 h first)
  then show ?case
    by simp
next
  case (2 h first sl)
  note q = "2.prems"(1) and cap = "2.prems"(2) and rx = "2.prems"(4) and pool = "2.prems"(5)
    and cnt = "2.prems"(6)
  define f where "f = head_flags first OR SW_EVENT_DATA_END"
  have rx1: "rxq s = frame h f sl # tail"
    using rx by (simp add: f_def)
  have ch: "f AND SW_EVENT_DATA_CHUNK \<noteq> 0"
    by (simp add: f_def head_flags_chunk)
  have p: "packet_pool b (msg_id h) \<noteq> None \<or>
      (f AND SW_EVENT_DATA_BEGIN \<noteq> 0 \<and> allocator b (unat (len h)))"
    using pool by (auto simp: f_def head_flags_bits)
  from read_with_buffer_step_chunk [OF q rx1 ch cap p, of maxc c] obtain n b2 s2 where
    st: "read_with_buffer_step maxc c b s = finish_chunk maxc (c + 1) (msg_id h) n b2 s2"
      "0 < n" "rxq s2 = tail" "info (buffer b2) = h\<lparr>flags := f\<rparr>"
    by (elim exE conjE)
  define b4 where "b4 = b2\<lparr>buffer :=
      (set_flags (f OR SW_EVENT_DATA_OBJ_PTR) (buffer b2))\<lparr>data := ObjVal (msg_id h)\<rparr>\<rparr>"
  have "finish_chunk maxc (c + 1) (msg_id h) n b2 s2 = Inl (Ret n, b4, s2)"
    by (simp add: finish_chunk_def prepare_packet_def is_end_def st(4) b4_def f_def
        head_flags_bits Let_def)
  with st(1) have r: "read_with_buffer_loop maxc c b s = (Ret n, b4, s2)"
    by (simp add: read_with_buffer_loop.simps [of maxc c b s])
  have e: "is_end (buffer b4)"
    by (simp add: b4_def is_end_def set_flags_def f_def end_kept)
  have bud: "Suc 0 \<le> (maxc - unat c + 1) div 2"
    using cnt by simp
  then have mn: "min (Suc 0) ((maxc - unat c + 1) div 2) = Suc 0"
    by simp
  show ?case
    unfolding r using e st(2,3) bud mn by simp
next
  case (3 h first sl sl' sls)
  note q = "3.prems"(1) and cap = "3.prems"(2) and rx = "3.prems"(4) and pool = "3.prems"(5)
    and cnt = "3.prems"(6)
  define f where "f = head_flags first"
  define rest where "rest = chunk_series h False (sl' # sls) @ tail"
  have rx1: "rxq s = frame h f sl # rest"
    using rx by (simp add: f_def rest_def)
  have ch: "f AND SW_EVENT_DATA_CHUNK \<noteq> 0"
    by (simp add: f_def head_flags_chunk)
  have p: "packet_pool b (msg_id h) \<noteq> None \<or>
      (f AND SW_EVENT_DATA_BEGIN \<noteq> 0 \<and> allocator b (unat (len h)))"
    using pool by (auto simp: f_def head_flags_bits)
  from read_with_buffer_step_chunk [OF q rx1 ch cap p, of maxc c] obtain n b2 s2 where
    st: "read_with_buffer_step maxc c b s = finish_chunk maxc (c + 1) (msg_id h) n b2 s2"
      "0 < n" "rxq s2 = rest" "script s2 = []" "info (buffer b2) = h\<lparr>flags := f\<rparr>"
      "packet_pool b2 (msg_id h) \<noteq> None" "buffer_size b2 = buffer_size b"
    by (elim exE conjE)
  have ne: "\<not> is_end (buffer b2)"
    by (simp add: is_end_def st(5) f_def head_flags_bits)
  have u2: "unat (c + 2) = unat c + 2"
    using unat_plus2_16 [OF cnt mx] .
  have cc: "c + 1 + 1 = c + 2"
    by simp
  have u: "unat (c + 1 + 1) = unat c + 2"
    unfolding cc by (rule u2)
  show ?case
  proof (cases "maxc \<le> unat c + 2")
    case True
    have "finish_chunk maxc (c + 1) (msg_id h) n b2 s2 = Inl (Ret SW_OK, b2, s2)"
      using ne True by (simp add: finish_chunk_def prepare_packet_def Let_def cc u2)
    with st(1) have r: "read_with_buffer_loop maxc c b s = (Ret SW_OK, b2, s2)"
      by (simp add: read_with_buffer_loop.simps [of maxc c b s])
    have bud: "(maxc - unat c + 1) div 2 = Suc 0"
      using True cnt by simp
    show ?thesis
      unfolding r bud using st(3,4,6,7) by (simp add: f_def rest_def)
  next
    case False
    then have cnt': "unat (c + 2) < maxc"
      using u2 by simp
    have "finish_chunk maxc (c + 1) (msg_id h) n b2 s2 = Inr (c + 2, b2, s2)"
      using ne False by (simp add: finish_chunk_def prepare_packet_def Let_def cc u2)
    with st(1) have r: "read_with_buffer_loop maxc c b s = read_with_buffer_loop maxc (c + 2) b2 s2"
      by (simp add: read_with_buffer_loop.simps [of maxc c b s])
    have p': "packet_pool b2 (msg_id h) \<noteq> None \<or> (False \<and> allocator b2 (unat (len h)))"
      using st(6) by simp
    have cap': "40 \<le> buffer_size b2"
      using cap st(7) by simp
    have rx2: "rxq s2 = chunk_series h False (sl' # sls) @ tail"
      using st(3) by (simp add: rest_def)
    have nn: "sl' # sls \<noteq> []"
      by simp
    from "3.IH" [OF st(4) cap' nn rx2 p' cnt'] obtain r1 b1 s1 where
      ih: "read_with_buffer_loop maxc (c + 2) b2 s2 = (r1, b1, s1)"
        "rxq s1 = drop (min (length (sl' # sls)) ((maxc - unat (c + 2) + 1) div 2))
                    (chunk_series h False (sl' # sls)) @ tail"
        "if length (sl' # sls) \<le> (maxc - unat (c + 2) + 1) div 2
         then (\<exists>n. r1 = Ret n \<and> 0 < n) \<and> is_end (buffer b1)
         else r1 = Ret SW_OK \<and> script s1 = [] \<and> buffer_size b1 = buffer_size b2 \<and>
              packet_pool b1 (msg_id h) \<noteq> None"
      by (elim exE conjE)
    have bud: "(maxc - unat c + 1) div 2 = Suc ((maxc - unat (c + 2) + 1) div 2)"
      using False u2 by simp
    have ser: "chunk_series h first (sl # sl' # sls) = frame h f sl # chunk_series h False (sl' # sls)"
      by (simp add: f_def)
    show ?thesis
      unfolding r ih(1) bud ser
      using ih(2,3) st(7) by (auto split: if_splits)
  qed
qed

lemma drop_chunk_series:
  "0 < j \<Longrightarrow> drop j (chunk_series h first sls) = chunk_series h False (drop j sls)"
proof (induction h first sls arbitrary: j rule: chunk_series.induct)
  case (1 h first)
  then show ?case
    by simp
next
  case (2 h first sl)
  then show ?case
    by (cases j) simp_all
next
  case (3 h first sl sl' sls)
  then obtain i where j: "j = Suc i"
    by (cases j) simp_all
  show ?case
  proof (cases i)
    case 0
    with j show ?thesis
      by simp
  next
    case (Suc i')
    with j "3.IH" [of i] show ?thesis
      by simp
  qed
qed

text \<open>
  The records of what is left of a message \<open>P\<close> after its first \<open>off\<close> bytes, under the
  header \<open>h\<close> and framed at the capacity of the bus \<open>b\<close>: every slice but the last
  fills what the buffer has behind the header, and the first record carries BEGIN when
  nothing has gone before.
\<close>

definition stream_records :: "DataHead \<Rightarrow> MessageBus \<Rightarrow> byte list \<Rightarrow> nat \<Rightarrow> byte list list" where
  "stream_records h b P off = chunk_series h (off = 0) (chop (buffer_size b - 40) (drop off P))"

text \<open>
  A stream socket whose calls do not fail and that holds these records followed by
  \<open>tail\<close>, for a reader that has reassembled the first \<open>off\<close> bytes of the message:
  at the start of the message it has no pool entry for it and can allocate one.
\<close>

definition chunks_on_stream ::
  "DataHead \<Rightarrow> byte list \<Rightarrow> nat \<Rightarrow> byte list \<Rightarrow> MessageBus \<Rightarrow> stream \<Rightarrow> bool" where
  "chunks_on_stream h P off tail b s =
     (script s = [] \<and> 40 < buffer_size b \<and> buffer_size b - 40 < 2 ^ 32 \<and> off < length P \<and>
      unat (len h) = length P \<and>
      (if off = 0 then packet_pool b (msg_id h) = None \<and> allocator b (length P)
       else packet_pool b (msg_id h) = Some (reassembly P off)) \<and>
      rxq s = concat (stream_records h b P off) @ tail)"

text \<open>
  A datagram socket whose calls do not fail and that holds the chunk series of the slices
  \<open>sls\<close>, one record per datagram, followed by the datagrams \<open>tail\<close>; \<open>first\<close>
  tells whether the series starts the message, in which case the reader has no pool entry
  for it and can allocate one.
\<close>

definition chunks_on_dgram ::
  "DataHead \<Rightarrow> bool \<Rightarrow> byte list list \<Rightarrow> byte list list \<Rightarrow> MessageBus \<Rightarrow> dgram \<Rightarrow> bool" where
  "chunks_on_dgram h first sls tail b d =
     (script d = [] \<and> 40 \<le> buffer_size b \<and> sls \<noteq> [] \<and>
      (if first then packet_pool b (msg_id h) = None \<and> allocator b (unat (len h))
       else packet_pool b (msg_id h) \<noteq> None) \<and>
      rxq d = chunk_series h first sls @ tail)"

lemma read_stream_records:
  assumes "0 < maxc" and "maxc < 65535" and "chunks_on_stream h P off tail b s"
  shows "\<exists>r b' s'. read maxc b s = (r, b', s') \<and>
       rxq s' = concat (drop (min (length (stream_records h b P off)) maxc)
                  (stream_records h b P off)) @ tail \<and>
       (if length (stream_records h b P off) \<le> maxc
        then (\<exists>n. r = Ret n \<and> 0 < n) \<and> is_end (buffer b')
        else r = Ret SW_OK \<and>
             chunks_on_stream h P (off + maxc * (buffer_size b - 40)) tail b' s')"
proof -
  define m where "m = buffer_size b - 40"
  from assms(3) have c:
    "script s = []" "40 < buffer_size b" "m < 2 ^ 32" "off < length P"
    "unat (len h) = length P"
    "if off = 0 then off = 0 \<and> packet_pool b (msg_id h) = None \<and> allocator b (length P)
     else packet_pool b (msg_id h) = Some (reassembly P off)"
    "rxq s = concat (chunk_series h (off = 0) (chop m (drop off P))) @ tail"
    by (simp_all add: chunks_on_stream_def stream_records_def m_def)
  have m: "0 < m" "buffer_size b = 40 + m"
    using c(2) by (simp_all add: m_def)
  have lP: "length P < 2 ^ 32"
    using c(5) unsigned_less [of "len h", where ?'a = nat] by simp
  have mx: "maxc \<le> 65535" "unat (0 :: 16 word) < maxc"
    using assms(1,2) by simp_all
  have u0: "maxc - unat (0 :: 16 word) = maxc"
    by simp
  from read_loop_series [OF m(1) c(3) lP c(5) refl mx(1) c(1) m(2) c(4,7,6) mx(2), unfolded u0]
  obtain r b' s' where
    rd: "read_loop maxc 0 b s = (r, b', s')"
      "rxq s' = concat (drop (min (length (chop m (drop off P))) maxc)
                 (chunk_series h (off = 0) (chop m (drop off P)))) @ tail"
      "if length (chop m (drop off P)) \<le> maxc
       then (\<exists>n. r = Ret n \<and> 0 < n) \<and> is_end (buffer b')
       else r = Ret SW_OK \<and> script s' = [] \<and> buffer_size b' = buffer_size b \<and>
            off + maxc * m < length P \<and>
            packet_pool b' (msg_id h) = Some (reassembly P (off + maxc * m)) \<and>
            rxq s' = concat (chunk_series h False (chop m (drop (off + maxc * m) P))) @ tail"
    by (elim exE conjE)
  have nxt: "chunks_on_stream h P (off + maxc * m) tail b' s'"
    if "\<not> length (chop m (drop off P)) \<le> maxc"
  proof -
    from rd(3) that have w: "script s' = []" "buffer_size b' = buffer_size b"
      "off + maxc * m < length P"
      "packet_pool b' (msg_id h) = Some (reassembly P (off + maxc * m))"
      "rxq s' = concat (chunk_series h False (chop m (drop (off + maxc * m) P))) @ tail"
      by simp_all
    have z: "(off + maxc * m = 0) = False"
      using assms(1) m(1) by simp
    show ?thesis
      unfolding chunks_on_stream_def stream_records_def w(2) m_def [symmetric] z
      using w c(2,3,5) by simp
  qed
  show ?thesis
    using rd nxt
    by (intro exI [of _ r] exI [of _ b'] exI [of _ s'])
       (simp add: read_def stream_records_def m_def [symmetric])
qed

lemma read_with_buffer_records:
  assumes "0 < maxc" and "maxc < 65535" and "chunks_on_dgram h first sls tail b d"
  shows "\<exists>r b' d'. read_with_buffer maxc b d = (r, b', d') \<and>
       rxq d' = drop (min (length sls) ((maxc + 1) div 2)) (chunk_series h first sls) @ tail \<and>
       (if length sls \<le> (maxc + 1) div 2
        then (\<exists>n. r = Ret n \<and> 0 < n) \<and> is_end (buffer b')
        else r = Ret SW_OK \<and>
             chunks_on_dgram h False (drop ((maxc + 1) div 2) sls) tail b' d')"
proof -
  from assms(3) have c:
    "script d = []" "40 \<le> buffer_size b" "sls \<noteq> []"
    "packet_pool b (msg_id h) \<noteq> None \<or> (first \<and> allocator b (unat (len h)))"
    "rxq d = chunk_series h first sls @ tail"
    by (auto simp: chunks_on_dgram_def split: if_splits)
  have mx: "maxc \<le> 65534" "unat (0 :: 16 word) < maxc"
    using assms(1,2) by simp_all
  have j: "0 < (maxc + 1) div 2"
    using assms(1) by simp
  have u0: "maxc - unat (0 :: 16 word) = maxc"
    by simp
  from read_with_buffer_loop_series [OF mx(1) c(1,2,3,5,4) mx(2), unfolded u0]
  obtain r b' d' where
    rd: "read_with_buffer_loop maxc 0 b d = (r, b', d')"
      "rxq d' = drop (min (length sls) ((maxc + 1) div 2)) (chunk_series h first sls) @ tail"
      "if length sls \<le> (maxc + 1) div 2
       then (\<exists>n. r = Ret n \<and> 0 < n) \<and> is_end (buffer b')
       else r = Ret SW_OK \<and> script d' = [] \<and> buffer_size b' = buffer_size b \<and>
            packet_pool b' (msg_id h) \<noteq> None"
    by (elim exE conjE)
  have nxt: "chunks_on_dgram h False (drop ((maxc + 1) div 2) sls) tail b' d'"
    if "\<not> length sls \<le> (maxc + 1) div 2"
    using rd(2,3) that c(2) drop_chunk_series [OF j, of h first sls]
    by (simp add: chunks_on_dgram_def min_def)
  show ?thesis
    using rd nxt
    by (intro exI [of _ r] exI [of _ b'] exI [of _ d'])
       (simp add: read_with_buffer_def)
qed

text \<open>
  Claim C5, as amended. Let \<open>maxc\<close> (\<open>SW_WORKER_MAX_RECV_CHUNK_COUNT\<close>) be at least 1
  and below 65535, so that the 16-bit counter does not wrap.

  Whatever the socket holds and whichever calls fail, one invocation of \<open>read\<close> makes at
  most \<open>maxc\<close> \<open>readv\<close> calls that return data, and when it has made \<open>maxc\<close> of them
  and the last header read does not carry END it returns \<open>SW_OK\<close>; one invocation of
  \<open>read_with_buffer\<close> takes \<open>k\<close> datagrams from the front of the queue with
  \<open>2 * k \<le> maxc + 1\<close>, since its counter advances twice per chunk.

  Let a stream socket whose calls do not fail hold, followed by anything, the \<open>N\<close>
  records that are left of a message \<open>P\<close> after \<open>off\<close> bytes, framed at the capacity
  \<open>C\<close> of the reader (\<open>40 < C\<close>, \<open>C - 40 < 2 ^ 32\<close>, every header with
  \<open>len = |P|\<close>), and let the reader hold the first \<open>off\<close> bytes in its pool (for
  \<open>off = 0\<close>: have no entry for the message and be able to allocate it). Then one
  invocation of \<open>read\<close> takes exactly the first \<open>min N maxc\<close> records. If
  \<open>N \<le> maxc\<close> the last of them carries END and the invocation returns a positive count
  (READY), whatever follows in the socket; otherwise it returns \<open>SW_OK\<close> (WAIT), the other
  \<open>N - maxc\<close> records stay in the socket, and socket and reader are as described again,
  with \<open>off\<close> advanced by \<open>maxc * (C - 40)\<close>.

  Let a datagram socket whose calls do not fail hold, followed by any datagrams, a chunk
  series of \<open>N\<close> records, one per datagram, and let the reader have a buffer of at least
  40 bytes and a pool entry for the message (at the start of the message: have none and
  be able to allocate it). Then the same holds for one invocation of
  \<open>read_with_buffer\<close> with \<open>(maxc + 1) div 2\<close> in the place of \<open>maxc\<close>.

  (The claim has every invocation take at most \<open>maxc\<close> chunks and return WAIT whenever
  more chunks remain. A chunk with END returns READY, whatever remains; and a \<open>readv\<close>
  of a reader whose capacity exceeds the slices of the sender takes more than one record.)
\<close>

theorem recv_chunk_limit:
  assumes "0 < maxc" and "maxc < 65535"
  shows
    "(\<exists>r b' s'. read maxc b s = (r, b', s') \<and>
        readv_calls s' \<le> readv_calls s + maxc \<and>
        (readv_calls s' = readv_calls s + maxc \<and> \<not> is_end (buffer b') \<longrightarrow> r = Ret SW_OK)) \<and>
     (\<exists>r b' d' k. read_with_buffer maxc b d = (r, b', d') \<and>
        k \<le> length (rxq d) \<and> rxq d' = drop k (rxq d) \<and> 2 * k \<le> maxc + 1) \<and>
     (chunks_on_stream h P off tail bs ss \<longrightarrow>
        (\<exists>r b' s'. read maxc bs ss = (r, b', s') \<and>
           rxq s' = concat (drop (min (length (stream_records h bs P off)) maxc)
                      (stream_records h bs P off)) @ tail \<and>
           (if length (stream_records h bs P off) \<le> maxc
            then (\<exists>n. r = Ret n \<and> 0 < n) \<and> is_end (buffer b')
            else r = Ret SW_OK \<and>
                 chunks_on_stream h P (off + maxc * (buffer_size bs - 40)) tail b' s'))) \<and>
     (chunks_on_dgram g first sls rest bd sd \<longrightarrow>
        (\<exists>r b' d'. read_with_buffer maxc bd sd = (r, b', d') \<and>
           rxq d' = drop (min (length sls) ((maxc + 1) div 2)) (chunk_series g first sls) @ rest \<and>
           (if length sls \<le> (maxc + 1) div 2
            then (\<exists>n. r = Ret n \<and> 0 < n) \<and> is_end (buffer b')
            else r = Ret SW_OK \<and>
                 chunks_on_dgram g False (drop ((maxc + 1) div 2) sls) rest b' d')))"
proof (intro conjI impI)
  obtain r b' s' where rd: "read maxc b s = (r, b', s')"
    by (meson prod_cases3)
  then have "read_loop maxc 0 b s = (r, b', s')"
    by (simp add: read_def)
  from read_loop_count [OF _ _ this] assms
  have "readv_calls s' \<le> readv_calls s + maxc \<and>
        (readv_calls s' = readv_calls s + maxc \<and> \<not> is_end (buffer b') \<longrightarrow> r = Ret SW_OK)"
    by simp
  with rd show "\<exists>r b' s'. read maxc b s = (r, b', s') \<and>
        readv_calls s' \<le> readv_calls s + maxc \<and>
        (readv_calls s' = readv_calls s + maxc \<and> \<not> is_end (buffer b') \<longrightarrow> r = Ret SW_OK)"
    by (intro exI [of _ r] exI [of _ b'] exI [of _ s'] conjI) simp_all
next
  obtain r b' d' where rd: "read_with_buffer maxc b d = (r, b', d')"
    by (meson prod_cases3)
  then have "read_with_buffer_loop maxc 0 b d = (r, b', d')"
    by (simp add: read_with_buffer_def)
  from read_with_buffer_loop_count [OF _ _ this] assms obtain k where
    "k \<le> length (rxq d)" "rxq d' = drop k (rxq d)" "2 * k \<le> maxc + 1"
    by auto
  with rd show "\<exists>r b' d' k. read_with_buffer maxc b d = (r, b', d') \<and>
        k \<le> length (rxq d) \<and> rxq d' = drop k (rxq d) \<and> 2 * k \<le> maxc + 1"
    by (intro exI [of _ r] exI [of _ b'] exI [of _ d'] exI [of _ k] conjI) simp_all
next
  assume "chunks_on_stream h P off tail bs ss"
  from read_stream_records [OF assms this]
  show "\<exists>r b' s'. read maxc bs ss = (r, b', s') \<and>
           rxq s' = concat (drop (min (length (stream_records h bs P off)) maxc)
                      (stream_records h bs P off)) @ tail \<and>
           (if length (stream_records h bs P off) \<le> maxc
            then (\<exists>n. r = Ret n \<and> 0 < n) \<and> is_end (buffer b')
            else r = Ret SW_OK \<and>
                 chunks_on_stream h P (off + maxc * (buffer_size bs - 40)) tail b' s')" .
next
  assume "chunks_on_dgram g first sls rest bd sd"
  from read_with_buffer_records [OF assms this]
  show "\<exists>r b' d'. read_with_buffer maxc bd sd = (r, b', d') \<and>
           rxq d' = drop (min (length sls) ((maxc + 1) div 2)) (chunk_series g first sls) @ rest \<and>
           (if length sls \<le> (maxc + 1) div 2
            then (\<exists>n. r = Ret n \<and> 0 < n) \<and> is_end (buffer b')
            else r = Ret SW_OK \<and>
                 chunks_on_dgram g False (drop ((maxc + 1) div 2) sls) rest b' d')" .
qed

text \<open>
  Scenario S3 of the spec, scaled down to a limit of 2 and a capacity of 41 bytes: a
  message of three one-byte chunks, on a stream and as datagrams; and a message of two
  chunks followed by the first chunk of another message.
\<close>

definition part :: "64 word \<Rightarrow> 32 word \<Rightarrow> 8 word \<Rightarrow> DataHead" where
  "part k n f = head0\<lparr>msg_id := k, len := n, flags := f\<rparr>"

definition three_parts :: stream where
  "three_parts =
     sock0 (encode_head (part 1 3 (SW_EVENT_DATA_CHUNK OR SW_EVENT_DATA_BEGIN)) @ [1] @
            encode_head (part 1 3 SW_EVENT_DATA_CHUNK) @ [2] @
            encode_head (part 1 3 (SW_EVENT_DATA_CHUNK OR SW_EVENT_DATA_END)) @ [3])"

definition two_parts_and_more :: stream where
  "two_parts_and_more =
     sock0 (encode_head (part 1 2 (SW_EVENT_DATA_CHUNK OR SW_EVENT_DATA_BEGIN)) @ [1] @
            encode_head (part 1 2 (SW_EVENT_DATA_CHUNK OR SW_EVENT_DATA_END)) @ [2] @
            encode_head (part 2 2 (SW_EVENT_DATA_CHUNK OR SW_EVENT_DATA_BEGIN)) @ [9])"

definition three_datagrams :: dgram where
  "three_datagrams =
     sock0 [encode_head (part 1 3 (SW_EVENT_DATA_CHUNK OR SW_EVENT_DATA_BEGIN)) @ [1],
            encode_head (part 1 3 SW_EVENT_DATA_CHUNK) @ [2],
            encode_head (part 1 3 (SW_EVENT_DATA_CHUNK OR SW_EVENT_DATA_END)) @ [3]]"

text \<open>
  The first three records of a message of 42 bytes that a sender with a capacity of 41
  bytes has cut into one-byte slices.
\<close>

definition short_parts :: stream where
  "short_parts =
     sock0 (encode_head (part 1 42 (SW_EVENT_DATA_CHUNK OR SW_EVENT_DATA_BEGIN)) @ [1] @
            encode_head (part 1 42 SW_EVENT_DATA_CHUNK) @ [2] @
            encode_head (part 1 42 SW_EVENT_DATA_CHUNK) @ [3])"

lemmas run_defs =
  read_def read_loop.simps read_step_def read_chunk_def finish_chunk_def
  prepare_packet_def get_packet_buffer_def make_string_def recv_peek_def readv_def
  stream_take_def next_fault_def logcall_def sock0_def bus0_def
  head0_def is_chunked_def is_begin_def is_end_def size_t_sub_def
  SW_EVENT_DATA_CHUNK_def SW_EVENT_DATA_BEGIN_def SW_EVENT_DATA_END_def
  SW_ERR_def SW_OK_def sizeof_DataHead_def Let_def

lemma three_records:
  "chunk_series (part 1 3 0) True [[1], [2], [3]] =
     [encode_head (part 1 3 (SW_EVENT_DATA_CHUNK OR SW_EVENT_DATA_BEGIN)) @ [1],
      encode_head (part 1 3 SW_EVENT_DATA_CHUNK) @ [2],
      encode_head (part 1 3 (SW_EVENT_DATA_CHUNK OR SW_EVENT_DATA_END)) @ [3]]"
  unfolding chunk_series.simps frame_def head_flags_def part_def
  by simp

lemma chop_three: "chop (Suc 0) [1, 2, 3 :: byte] = [[1], [2], [3]]"
  by (simp add: chop.simps)

lemma stream_records_three:
  "stream_records (part 1 3 0) (bus0 41) [1, 2, 3] 0 =
     [encode_head (part 1 3 (SW_EVENT_DATA_CHUNK OR SW_EVENT_DATA_BEGIN)) @ [1],
      encode_head (part 1 3 SW_EVENT_DATA_CHUNK) @ [2],
      encode_head (part 1 3 (SW_EVENT_DATA_CHUNK OR SW_EVENT_DATA_END)) @ [3]]"
proof -
  have "buffer_size (bus0 41) - 40 = Suc 0" "((0 :: nat) = 0) = True"
    "drop 0 [1, 2, 3 :: byte] = [1, 2, 3]"
    by (simp_all add: bus0_def)
  then show ?thesis
    unfolding stream_records_def by (simp only: chop_three three_records)
qed

theorem recv_chunk_limit_witness:
  "(\<exists>r b' s'. read 2 (bus0 41) three_parts = (r, b', s') \<and>
      readv_calls s' \<le> readv_calls three_parts + 2 \<and>
      (readv_calls s' = readv_calls three_parts + 2 \<and> \<not> is_end (buffer b') \<longrightarrow> r = Ret SW_OK)) \<and>
   (\<exists>r b' d' k. read_with_buffer 2 (bus0 41) three_datagrams = (r, b', d') \<and>
      k \<le> length (rxq three_datagrams) \<and> rxq d' = drop k (rxq three_datagrams) \<and>
      2 * k \<le> 2 + 1) \<and>
   chunks_on_stream (part 1 3 0) [1, 2, 3] 0 [] (bus0 41) three_parts \<and>
   (\<exists>b' s'. read 2 (bus0 41) three_parts = (Ret SW_OK, b', s') \<and>
      rxq s' = encode_head (part 1 3 (SW_EVENT_DATA_CHUNK OR SW_EVENT_DATA_END)) @ [3] \<and>
      chunks_on_stream (part 1 3 0) [1, 2, 3] 2 [] b' s') \<and>
   chunks_on_dgram (part 1 3 0) True [[1], [2], [3]] [] (bus0 41) three_datagrams \<and>
   (\<exists>b' d'. read_with_buffer 2 (bus0 41) three_datagrams = (Ret SW_OK, b', d') \<and>
      rxq d' = [encode_head (part 1 3 SW_EVENT_DATA_CHUNK) @ [2],
                encode_head (part 1 3 (SW_EVENT_DATA_CHUNK OR SW_EVENT_DATA_END)) @ [3]] \<and>
      chunks_on_dgram (part 1 3 0) False [[2], [3]] [] b' d')"
proof -
  have lim: "0 < (2 :: nat)" "(2 :: nat) < 65535"
    by simp_all
  note t = recv_chunk_limit [OF lim, where b = "bus0 41" and s = three_parts
      and d = three_datagrams and h = "part 1 3 0" and P = "[1, 2, 3]" and off = 0
      and tail = "[]" and bs = "bus0 41" and ss = three_parts and g = "part 1 3 0"
      and first = True and sls = "[[1], [2], [3]]" and rest = "[]" and bd = "bus0 41"
      and sd = three_datagrams]
  have hs: "chunks_on_stream (part 1 3 0) [1, 2, 3] 0 [] (bus0 41) three_parts"
    unfolding chunks_on_stream_def stream_records_three
    by (simp add: three_parts_def sock0_def bus0_def part_def)
  have hd: "chunks_on_dgram (part 1 3 0) True [[1], [2], [3]] [] (bus0 41) three_datagrams"
    unfolding chunks_on_dgram_def three_records
    by (simp add: three_datagrams_def sock0_def bus0_def part_def)
  have off: "0 + 2 * (buffer_size (bus0 41) - 40) = 2"
    by (simp add: bus0_def)
  have cs: "\<exists>b' s'. read 2 (bus0 41) three_parts = (Ret SW_OK, b', s') \<and>
      rxq s' = encode_head (part 1 3 (SW_EVENT_DATA_CHUNK OR SW_EVENT_DATA_END)) @ [3] \<and>
      chunks_on_stream (part 1 3 0) [1, 2, 3] 2 [] b' s'"
    using t [THEN conjunct2, THEN conjunct2, THEN conjunct1, THEN mp, OF hs]
    unfolding stream_records_three off by auto
  have cd: "\<exists>b' d'. read_with_buffer 2 (bus0 41) three_datagrams = (Ret SW_OK, b', d') \<and>
      rxq d' = [encode_head (part 1 3 SW_EVENT_DATA_CHUNK) @ [2],
                encode_head (part 1 3 (SW_EVENT_DATA_CHUNK OR SW_EVENT_DATA_END)) @ [3]] \<and>
      chunks_on_dgram (part 1 3 0) False [[2], [3]] [] b' d'"
    using t [THEN conjunct2, THEN conjunct2, THEN conjunct2, THEN mp, OF hd]
    unfolding three_records by auto
  show ?thesis
    using t [THEN conjunct1] t [THEN conjunct2, THEN conjunct1] hs cs hd cd
    by (intro conjI) simp_all
qed

text \<open>
  Claim C5 as stated fails on both counts. With a limit of 2, \<open>read\<close> takes two chunks,
  the second of which carries END, and returns READY (41 bytes) and not \<open>SW_OK\<close>,
  although a chunk remains in the socket. And with a limit of 1 and a capacity of 82
  bytes, one invocation of \<open>read\<close> on records with one-byte slices takes two records
  with its one \<open>readv\<close>.
\<close>

theorem recv_chunk_limit_counterexample:
  "(\<exists>b' s'. read 2 (bus0 41) two_parts_and_more = (Ret 41, b', s') \<and>
      rxq s' = encode_head (part 2 2 (SW_EVENT_DATA_CHUNK OR SW_EVENT_DATA_BEGIN)) @ [9] \<and>
      Ret 41 \<noteq> Ret SW_OK) \<and>
   (\<exists>b' s'. read 1 (bus0 82) short_parts = (Ret SW_OK, b', s') \<and>
      readv_calls s' = readv_calls short_parts + 1 \<and>
      rxq short_parts =
        (encode_head (part 1 42 (SW_EVENT_DATA_CHUNK OR SW_EVENT_DATA_BEGIN)) @ [1]) @
        (encode_head (part 1 42 SW_EVENT_DATA_CHUNK) @ [2]) @ rxq s' \<and>
      rxq s' = encode_head (part 1 42 SW_EVENT_DATA_CHUNK) @ [3])"
proof (intro conjI)
  show "\<exists>b' s'. read 2 (bus0 41) two_parts_and_more = (Ret 41, b', s') \<and>
      rxq s' = encode_head (part 2 2 (SW_EVENT_DATA_CHUNK OR SW_EVENT_DATA_BEGIN)) @ [9] \<and>
      Ret 41 \<noteq> Ret SW_OK"
    by (simp add: run_defs two_parts_and_more_def part_def)
  show "\<exists>b' s'. read 1 (bus0 82) short_parts = (Ret SW_OK, b', s') \<and>
      readv_calls s' = readv_calls short_parts + 1 \<and>
      rxq short_parts =
        (encode_head (part 1 42 (SW_EVENT_DATA_CHUNK OR SW_EVENT_DATA_BEGIN)) @ [1]) @
        (encode_head (part 1 42 SW_EVENT_DATA_CHUNK) @ [2]) @ rxq s' \<and>
      rxq s' = encode_head (part 1 42 SW_EVENT_DATA_CHUNK) @ [3]"
    by (simp add: run_defs short_parts_def part_def readv_calls_def)
qed

end
